theory Spec2Isabelle
  imports Complex_Main "HOL-Library.Multiset"
begin

section \<open>Helpers\<close>

text \<open>
  The coordinates and sizes of the board are modelled as exact reals; the arithmetic of
  the merits is modelled with the rounding of IEEE-754 binary64 (\<open>binary64\<close> below).
  \<open>Math.round\<close> rounds half up, which is \<open>round\<close> of HOL
  (\<open>round x = \<lfloor>x + 1/2\<rfloor>\<close>).
\<close>

definition clamp :: "'a::linorder \<Rightarrow> 'a \<Rightarrow> 'a \<Rightarrow> 'a" where
  "clamp n a b = max a (min b n)"

definition Math_round :: "real \<Rightarrow> real" where
  "Math_round v = of_int (round v)"

record rect =
  rleft :: real
  rtop :: real
  rright :: real
  rbottom :: real

record tile =
  tileId :: string
  letterId :: string
  tile_x :: real
  tile_y :: real
  tile_z :: int
  removed :: bool
  animatingOut :: bool
  covered :: bool

definition rectsOverlapAny :: "rect \<Rightarrow> rect \<Rightarrow> bool" where
  "rectsOverlapAny r1 r2 =
     (\<not> (rleft r2 \<ge> rright r1 \<or> rright r2 \<le> rleft r1 \<or>
         rtop r2 \<ge> rbottom r1 \<or> rbottom r2 \<le> rtop r1))"

definition tileRectBase :: "tile \<Rightarrow> real \<Rightarrow> real \<Rightarrow> real \<Rightarrow> real \<Rightarrow> rect" where
  "tileRectBase t tileW tileH zOffsetX zOffsetY =
     (let pad = max 1 (Math_round (tileW * 0.02));
          left = tile_x t + of_int (tile_z t) * zOffsetX;
          top = tile_y t - of_int (tile_z t) * zOffsetY
      in \<lparr> rleft = left + pad, rtop = top + pad,
           rright = left + tileW - pad, rbottom = top + tileH - pad \<rparr>)"

section \<open>Occlusion solver: \<open>computeTileStatus\<close>\<close>

text \<open>
  \<open>rectById\<close> is a JavaScript \<open>Map\<close>: a later \<open>set\<close> of the same key replaces the
  earlier one. A \<open>get\<close> of an absent key yields \<open>undefined\<close>, and reading a field of
  it throws; that is the \<open>TypeError\<close> branch of the scans below.
\<close>

datatype js_error = TypeError

record status =
  free :: "string set"
  reasonById :: "string \<rightharpoonup> string"

fun buildRectById ::
  "tile list \<Rightarrow> real \<Rightarrow> real \<Rightarrow> real \<Rightarrow> real \<Rightarrow> (string \<rightharpoonup> rect) \<Rightarrow> (string \<rightharpoonup> rect)" where
  "buildRectById [] tileW tileH zx zy m = m"
| "buildRectById (t # ts) tileW tileH zx zy m =
     buildRectById ts tileW tileH zx zy (m(tileId t \<mapsto> tileRectBase t tileW tileH zx zy))"

text \<open>The inner loop of the first pass, for one tile \<open>t\<close>: the reason found at the
  \<open>break\<close>, or \<open>None\<close> when the loop runs to its end. The rectangle \<open>r\<close> of \<open>t\<close>
  is the result of \<open>rectById.get(t.tileId)\<close>; it is read in \<open>rectsOverlapAny\<close> only.\<close>

fun overlapScan ::
  "(string \<rightharpoonup> rect) \<Rightarrow> tile \<Rightarrow> tile list \<Rightarrow> js_error + string option" where
  "overlapScan m t [] = Inr None"
| "overlapScan m t (u # us) =
     (if tileId u = tileId t then overlapScan m t us
      else case (m (tileId t), m (tileId u)) of
        (Some r, Some ro) \<Rightarrow>
          if \<not> rectsOverlapAny r ro then overlapScan m t us
          else if tile_z u > tile_z t then Inr (Some ''blocked:overlap-above'')
          else if tile_z u = tile_z t then Inr (Some ''blocked:overlap-same'')
          else overlapScan m t us
      | _ \<Rightarrow> Inl TypeError)"

text \<open>The first pass. The state is \<open>(blockedFromTop, blockedSameLayer, reasonById)\<close>.\<close>

fun overlapPass ::
  "(string \<rightharpoonup> rect) \<Rightarrow> tile list \<Rightarrow> tile list \<Rightarrow>
   string set \<times> string set \<times> (string \<rightharpoonup> string) \<Rightarrow>
   js_error + string set \<times> string set \<times> (string \<rightharpoonup> string)" where
  "overlapPass m aliveTiles [] acc = Inr acc"
| "overlapPass m aliveTiles (t # ts) (bTop, bSame, reason) =
     (case overlapScan m t aliveTiles of
        Inl e \<Rightarrow> Inl e
      | Inr None \<Rightarrow> overlapPass m aliveTiles ts (bTop, bSame, reason)
      | Inr (Some why) \<Rightarrow>
          if why = ''blocked:overlap-above''
          then overlapPass m aliveTiles ts
                 (insert (tileId t) bTop, bSame, reason(tileId t \<mapsto> why))
          else overlapPass m aliveTiles ts
                 (bTop, insert (tileId t) bSame, reason(tileId t \<mapsto> why)))"

fun groupByLayer :: "tile list \<Rightarrow> (int \<rightharpoonup> tile list) \<Rightarrow> (int \<rightharpoonup> tile list)" where
  "groupByLayer [] sameLayer = sameLayer"
| "groupByLayer (t # ts) sameLayer =
     groupByLayer ts
       (sameLayer(tile_z t \<mapsto> (case sameLayer (tile_z t) of None \<Rightarrow> [] | Some l \<Rightarrow> l) @ [t]))"

definition verticalOverlap :: "rect \<Rightarrow> rect \<Rightarrow> bool" where
  "verticalOverlap rt ro = (min (rbottom rt) (rbottom ro) - max (rtop rt) (rtop ro) > 0)"

text \<open>The inner loop of the second pass: the two neighbour flags at its end.\<close>

fun lateralScan ::
  "(string \<rightharpoonup> rect) \<Rightarrow> real \<Rightarrow> tile \<Rightarrow> tile list \<Rightarrow> bool \<Rightarrow> bool \<Rightarrow>
   js_error + bool \<times> bool" where
  "lateralScan m sideGap t [] hasLeft hasRight = Inr (hasLeft, hasRight)"
| "lateralScan m sideGap t (u # us) hasLeft hasRight =
     (if tileId u = tileId t then lateralScan m sideGap t us hasLeft hasRight
      else case (m (tileId t), m (tileId u)) of
        (Some rt, Some ro) \<Rightarrow>
          if \<not> verticalOverlap rt ro
          then lateralScan m sideGap t us hasLeft hasRight
          else
            let hasLeft' = (hasLeft \<or> (rright ro \<le> rleft rt \<and> rleft rt - rright ro \<le> sideGap));
                hasRight' = (hasRight \<or> (rleft ro \<ge> rright rt \<and> rleft ro - rright rt \<le> sideGap))
            in if hasLeft' \<and> hasRight' then Inr (hasLeft', hasRight')
               else lateralScan m sideGap t us hasLeft' hasRight'
      | _ \<Rightarrow> Inl TypeError)"

fun lateralPass ::
  "(string \<rightharpoonup> rect) \<Rightarrow> (int \<rightharpoonup> tile list) \<Rightarrow> real \<Rightarrow> string set \<Rightarrow> string set \<Rightarrow>
   tile list \<Rightarrow> status \<Rightarrow> js_error + status" where
  "lateralPass m sameLayer sideGap bTop bSame [] st = Inr st"
| "lateralPass m sameLayer sideGap bTop bSame (t # ts) st =
     (if tileId t \<in> bTop \<or> tileId t \<in> bSame
      then lateralPass m sameLayer sideGap bTop bSame ts st
      else
        let layerTiles = (case sameLayer (tile_z t) of None \<Rightarrow> [] | Some l \<Rightarrow> l)
        in case lateralScan m sideGap t layerTiles False False of
             Inl e \<Rightarrow> Inl e
           | Inr (hasLeft, hasRight) \<Rightarrow>
               if \<not> hasLeft \<or> \<not> hasRight
               then lateralPass m sameLayer sideGap bTop bSame ts
                      (st\<lparr>free := insert (tileId t) (free st)\<rparr>)
               else lateralPass m sameLayer sideGap bTop bSame ts
                      (st\<lparr>reasonById := (reasonById st)(tileId t \<mapsto> ''blocked:lateral'')\<rparr>))"

definition computeTileStatus ::
  "tile list \<Rightarrow> real \<Rightarrow> real \<Rightarrow> real \<Rightarrow> real \<Rightarrow> real \<Rightarrow> js_error + status" where
  "computeTileStatus aliveTiles tileW tileH zOffsetX zOffsetY sideGapFactor =
     (let rectById = buildRectById aliveTiles tileW tileH zOffsetX zOffsetY Map.empty
      in case overlapPass rectById aliveTiles aliveTiles ({}, {}, Map.empty) of
           Inl e \<Rightarrow> Inl e
         | Inr (blockedFromTop, blockedSameLayer, reason) \<Rightarrow>
             lateralPass rectById (groupByLayer aliveTiles Map.empty) (tileW * sideGapFactor)
               blockedFromTop blockedSameLayer aliveTiles
               \<lparr> free = {}, reasonById = reason \<rparr>)"

abbreviation (input) layerOf :: "(int \<rightharpoonup> tile list) \<Rightarrow> tile \<Rightarrow> tile list" where
  "layerOf sl t \<equiv> (case sl (tile_z t) of None \<Rightarrow> [] | Some l \<Rightarrow> l)"

section \<open>Shuffling\<close>

text \<open>
  \<open>Math.random()\<close> returns a number in \<open>[0, 1)\<close>. The random source of a handler is the
  sequence of its successive results; every function that draws from it takes the number
  of draws made so far and returns the new count.
\<close>

typedef unitReal = "{r :: real. 0 \<le> r \<and> r < 1}"
  by (rule exI[of _ 0]) simp

type_synonym random = "nat \<Rightarrow> unitReal"

text \<open>The loop of \<open>shuffle\<close>, for \<open>i\<close> from \<open>a.length - 1\<close> down to \<open>1\<close>;
  \<open>(Math.random() * (i + 1)) | 0\<close> truncates a non-negative number below \<open>2^31\<close>.\<close>

fun shuffleFrom :: "random \<Rightarrow> nat \<Rightarrow> nat \<Rightarrow> 'a list \<Rightarrow> 'a list \<times> nat" where
  "shuffleFrom rand c 0 a = (a, c)"
| "shuffleFrom rand c (Suc k) a =
     (let i = Suc k;
          j = nat \<lfloor>Rep_unitReal (rand c) * real (i + 1)\<rfloor>
      in shuffleFrom rand (Suc c) k (a[i := a ! j, j := a ! i]))"

definition shuffle :: "random \<Rightarrow> nat \<Rightarrow> 'a list \<Rightarrow> 'a list \<times> nat" where
  "shuffle rand c arr = shuffleFrom rand c (length arr - 1) arr"

section \<open>Layout\<close>

record slot =
  gx :: int
  gy :: int
  slot_z :: int

definition mkSlot :: "int \<Rightarrow> int \<Rightarrow> int \<Rightarrow> slot" where
  "mkSlot a b c = \<lparr> gx = a, gy = b, slot_z = c \<rparr>"

definition createLayoutPool :: "slot list" where
  "createLayoutPool =
     [mkSlot 1 2 0, mkSlot 2 2 0, mkSlot 3 2 0, mkSlot 4 2 0,
      mkSlot 1 3 0, mkSlot 2 3 0, mkSlot 3 3 0, mkSlot 4 3 0,
      mkSlot 2 4 0, mkSlot 3 4 0, mkSlot 2 1 0, mkSlot 3 1 0,
      mkSlot 2 2 1, mkSlot 3 2 1, mkSlot 2 3 1, mkSlot 3 3 1,
      mkSlot 2 1 1, mkSlot 3 1 1, mkSlot 2 4 1, mkSlot 3 4 1,
      mkSlot 2 2 2, mkSlot 3 2 2, mkSlot 2 3 2, mkSlot 3 3 2]
     @
     [mkSlot 0 2 0, mkSlot 5 2 0, mkSlot 0 3 0, mkSlot 5 3 0,
      mkSlot 1 0 0, mkSlot 4 0 0, mkSlot 1 5 0, mkSlot 4 5 0,
      mkSlot 2 0 0, mkSlot 3 0 0, mkSlot 2 5 0, mkSlot 3 5 0,
      mkSlot 1 2 1, mkSlot 4 2 1, mkSlot 1 3 1, mkSlot 4 3 1,
      mkSlot 2 0 1, mkSlot 3 0 1, mkSlot 2 5 1, mkSlot 3 5 1,
      mkSlot 2 1 2, mkSlot 3 1 2, mkSlot 2 4 2, mkSlot 3 4 2,
      mkSlot 1 2 2, mkSlot 4 2 2,
      mkSlot 2 2 3, mkSlot 3 2 3]"

text \<open>\<open>xs.slice(0, e)\<close> for an integer \<open>e\<close>: a negative end counts from the end of the
  array, and an end beyond the length stops at the length.\<close>

definition js_slice0 :: "'a list \<Rightarrow> int \<Rightarrow> 'a list" where
  "js_slice0 xs e = (if e < 0 then take (nat (int (length xs) + e)) xs else take (nat e) xs)"

definition digitChar :: "nat \<Rightarrow> char" where
  "digitChar d = ''0123456789'' ! d"

function showNat :: "nat \<Rightarrow> string" where
  "showNat n = (if n < 10 then [digitChar n] else showNat (n div 10) @ [digitChar (n mod 10)])"
  by pat_completeness auto
termination
  by (relation "measure id") auto

declare showNat.simps [simp del]

definition showInt :: "int \<Rightarrow> string" where
  "showInt i = (if i < 0 then CHR ''-'' # showNat (nat (- i)) else showNat (nat i))"

record position =
  pos_tileId :: string
  pos_x :: real
  pos_y :: real
  pos_z :: int

text \<open>\<open>layout.map((p, i) => ...)\<close>, with the index counted from \<open>i\<close>.\<close>

fun placeFrom :: "nat \<Rightarrow> real \<Rightarrow> real \<Rightarrow> real \<Rightarrow> real \<Rightarrow> real \<Rightarrow> slot list \<Rightarrow> position list" where
  "placeFrom i pad minX minY stepX stepY [] = []"
| "placeFrom i pad minX minY stepX stepY (p # ps) =
     \<lparr> pos_tileId = ''t'' @ showNat i,
       pos_x = pad + (of_int (gx p) - minX) * stepX,
       pos_y = pad + (of_int (gy p) - minY) * stepY,
       pos_z = slot_z p \<rparr>
     # placeFrom (Suc i) pad minX minY stepX stepY ps"

text \<open>
  \<open>buildLayout\<close> returns the board size and the slot positions; only \<open>positionsPx\<close> is
  modelled. \<open>Math.min(...gxs)\<close> of an empty layout is read by no position.
\<close>

definition buildLayout :: "real \<Rightarrow> real \<Rightarrow> int \<Rightarrow> int \<Rightarrow> position list" where
  "buildLayout tileW tileH level tileCount =
     (let pool = createLayoutPool;
          layout = js_slice0 pool (min tileCount (int (length pool)));
          stepX = tileW * 1.02;
          stepY = tileH * 1.02;
          pad = max 18 (Math_round (tileW * 0.25))
      in case layout of
           [] \<Rightarrow> []
         | p # ps \<Rightarrow>
             placeFrom 0 pad (of_int (fold min (map gx ps) (gx p)))
               (of_int (fold min (map gy ps) (gy p))) stepX stepY layout)"

section \<open>Tray\<close>

definition TRAY_LIMIT :: nat where "TRAY_LIMIT = 4"
definition BOARD_REMOVE_MS :: int where "BOARD_REMOVE_MS = 240"
definition TRAY_MATCH_MS :: int where "TRAY_MATCH_MS = 1450"
definition WIN_BANNER_MS :: int where "WIN_BANNER_MS = 1800"
definition MAX_LEVEL :: int where "MAX_LEVEL = 10"

record trayEntry =
  trayId :: string
  entry_tileId :: string
  entry_letterId :: string
  glowUntil :: int
  matchedOut :: bool

text \<open>
  A pending \<open>setTimeout\<close> callback. The delay is kept with it; the model lets any pending
  callback run next, which includes the order the delays give.
\<close>

datatype action = ClearTray "string list" | MarkRemoved string | GoToIntro

type_synonym timer = "int \<times> action"

text \<open>\<open>counts\<close> is a \<open>Map\<close> read in insertion order: a key keeps the place of its first
  \<open>set\<close>.\<close>

fun countsAdd :: "string \<Rightarrow> (string \<times> nat) list \<Rightarrow> (string \<times> nat) list" where
  "countsAdd k [] = [(k, 1)]"
| "countsAdd k ((k', c) # rest) =
     (if k' = k then (k', c + 1) # rest else (k', c) # countsAdd k rest)"

fun countLetters :: "trayEntry list \<Rightarrow> (string \<times> nat) list \<Rightarrow> (string \<times> nat) list" where
  "countLetters [] counts = counts"
| "countLetters (it # its) counts =
     (if matchedOut it then countLetters its counts
      else countLetters its (countsAdd (entry_letterId it) counts))"

fun collectIds :: "string \<Rightarrow> trayEntry list \<Rightarrow> string list \<Rightarrow> string list" where
  "collectIds l [] ids = ids"
| "collectIds l (it # its) ids =
     (if entry_letterId it = l \<and> \<not> matchedOut it
      then (let ids' = ids @ [trayId it]
            in if length ids' = 2 then ids' else collectIds l its ids')
      else collectIds l its ids)"

text \<open>\<open>nextTray.map(...)\<close>: every marked entry reads the clock once; \<open>now c\<close> is the
  \<open>c\<close>-th reading of \<open>Date.now()\<close> in the handler.\<close>

fun markMatched :: "(nat \<Rightarrow> int) \<Rightarrow> nat \<Rightarrow> string list \<Rightarrow> trayEntry list \<Rightarrow> trayEntry list" where
  "markMatched now c ids [] = []"
| "markMatched now c ids (it # its) =
     (if trayId it \<in> set ids
      then it\<lparr>matchedOut := True, glowUntil := now c + TRAY_MATCH_MS\<rparr>
             # markMatched now (Suc c) ids its
      else it # markMatched now c ids its)"

text \<open>The loop over \<open>counts.entries()\<close>; the result is the new tray and the timers
  pushed onto \<open>timeoutsRef\<close>.\<close>

fun resolveFirst ::
  "(nat \<Rightarrow> int) \<Rightarrow> nat \<Rightarrow> trayEntry list \<Rightarrow> (string \<times> nat) list \<Rightarrow> trayEntry list \<times> timer list" where
  "resolveFirst now c nextTray [] = (nextTray, [])"
| "resolveFirst now c nextTray ((l, n) # rest) =
     (if n \<ge> 2
      then (let ids = collectIds l nextTray []
            in if length ids < 2 then (nextTray, [])
               else (markMatched now c ids nextTray, [(TRAY_MATCH_MS, ClearTray ids)]))
      else resolveFirst now c nextTray rest)"

definition tryRemovePairInTray ::
  "(nat \<Rightarrow> int) \<Rightarrow> nat \<Rightarrow> trayEntry list \<Rightarrow> trayEntry list \<times> timer list" where
  "tryRemovePairInTray now c nextTray = resolveFirst now c nextTray (countLetters nextTray [])"

section \<open>Game session\<close>

datatype gameState = Playing | Win | Lose

record snapshot =
  snap_tiles :: "tile list"
  snap_tray :: "trayEntry list"
  snap_gameState :: gameState

text \<open>
  The state of the component that the rules read or write. \<open>tileW\<close> and \<open>tileH\<close> are the
  fields \<open>view_tileW\<close> and \<open>view_tileH\<close>; \<open>timeouts\<close> holds the callbacks of
  \<open>timeoutsRef\<close> that have not run. The presentation state (\<open>uiStep\<close>, \<open>soundOn\<close>,
  \<open>showWinOverlay\<close>, \<open>lastWinLevel\<close>, drag and scale) is left out.
\<close>

record game =
  gameState :: gameState
  tiles :: "tile list"
  tray :: "trayEntry list"
  history :: "snapshot list"
  hasStarted :: bool
  currentLevel :: int
  moveCount :: nat
  startTime :: "int option"
  elapsedSec :: int
  totalMerits :: int
  lastMerits :: "int option"
  view_tileW :: real
  view_tileH :: real
  timeouts :: "timer list"

record levelConfig =
  tileCount :: int
  sideGapFactor :: real
  coverRate :: real

definition levelConfigOf :: "int \<Rightarrow> levelConfig" where
  "levelConfigOf level =
     \<lparr> tileCount = clamp (24 + (level - 1) * 2) 24 50,
       sideGapFactor = 0.18,
       coverRate = clamp (of_int (level - 1) * 0.06) 0 0.45 \<rparr>"

definition positionsPx :: "game \<Rightarrow> position list" where
  "positionsPx g =
     buildLayout (view_tileW g) (view_tileH g) (currentLevel g)
       (tileCount (levelConfigOf (currentLevel g)))"

definition aliveTiles :: "game \<Rightarrow> tile list" where
  "aliveTiles g = filter (\<lambda>t. \<not> removed t \<and> \<not> animatingOut t) (tiles g)"

text \<open>\<open>freeTileIds\<close> of the last render. The solver never throws
  (\<open>computeTileStatus_total_run\<close>), so the second branch is never taken.\<close>

definition freeTileIds :: "game \<Rightarrow> string set" where
  "freeTileIds g =
     (case computeTileStatus (aliveTiles g) (view_tileW g) (view_tileH g)
             (view_tileW g * 0.08) (view_tileH g * 0.07)
             (sideGapFactor (levelConfigOf (currentLevel g))) of
        Inr st \<Rightarrow> free st
      | Inl e \<Rightarrow> {})"

text \<open>\<open>JSON.parse(JSON.stringify(v))\<close> copies a value made of strings, finite numbers,
  booleans, arrays and plain objects unchanged.\<close>

definition pushHistory :: "tile list \<Rightarrow> trayEntry list \<Rightarrow> gameState \<Rightarrow> game \<Rightarrow> game" where
  "pushHistory nextTiles nextTray nextGameState g =
     g\<lparr>history := history g @
          [\<lparr> snap_tiles = nextTiles, snap_tray = nextTray, snap_gameState = nextGameState \<rparr>]\<rparr>"

definition undo :: "game \<Rightarrow> game" where
  "undo g =
     (let g1 = g\<lparr>timeouts := []\<rparr>
      in if length (history g1) = 0 then g1
         else let lastSnap = last (history g1)
              in g1\<lparr>tiles := snap_tiles lastSnap, tray := snap_tray lastSnap,
                    gameState := snap_gameState lastSnap,
                    history := butlast (history g1)\<rparr>)"

text \<open>What a handler reads from outside the state: the successive readings of
  \<open>Date.now()\<close> and the string \<open>Math.random().toString(36).slice(2, 8)\<close>.\<close>

record pickEnv =
  Date_now :: "nat \<Rightarrow> int"
  randomSuffix :: string

definition pickTile :: "pickEnv \<Rightarrow> string \<Rightarrow> game \<Rightarrow> game" where
  "pickTile env tid g =
     (if gameState g \<noteq> Playing then g
      else case find (\<lambda>x. tileId x = tid) (tiles g) of
        None \<Rightarrow> g
      | Some t \<Rightarrow>
          if removed t \<or> animatingOut t then g
          else if tid \<notin> freeTileIds g then g
          else if covered t
          then g\<lparr>tiles := map (\<lambda>x. if tileId x = tid then x\<lparr>covered := False\<rparr> else x) (tiles g)\<rparr>
          else if length (tray g) \<ge> TRAY_LIMIT then g\<lparr>gameState := Lose\<rparr>
          else
            let g1 = pushHistory (tiles g) (tray g) (gameState g) g;
                nextTiles = map (\<lambda>x. if tileId x = tid then x\<lparr>animatingOut := True\<rparr> else x) (tiles g);
                glow = Date_now env 0 + 520;
                newId = tid @ ''-'' @ showInt (Date_now env 1) @ ''-'' @ randomSuffix env;
                nextTray = tray g @
                  [\<lparr> trayId = newId, entry_tileId = tid, entry_letterId = letterId t,
                     glowUntil = glow, matchedOut = False \<rparr>]
            in if length nextTray > TRAY_LIMIT
               then g1\<lparr>tiles := nextTiles, tray := nextTray, gameState := Lose\<rparr>
               else
                 let (cleaned, pushed) = tryRemovePairInTray (Date_now env) 2 nextTray
                 in g1\<lparr>tiles := nextTiles, tray := cleaned, moveCount := moveCount g + 1,
                       timeouts := timeouts g @ pushed @ [(BOARD_REMOVE_MS, MarkRemoved tid)]\<rparr>)"

text \<open>\<open>tiles.map\<close> of \<open>reshuffle\<close>: \<open>k\<close> counts the live tiles met so far.\<close>

fun reassign :: "string list \<Rightarrow> nat \<Rightarrow> tile list \<Rightarrow> tile list" where
  "reassign mixed k [] = []"
| "reassign mixed k (t # ts) =
     (if removed t then t # reassign mixed k ts
      else t\<lparr>letterId := mixed ! k\<rparr> # reassign mixed (Suc k) ts)"

definition reshuffle :: "random \<Rightarrow> game \<Rightarrow> game" where
  "reshuffle rand g =
     (if gameState g \<noteq> Playing then g
      else
        let g1 = pushHistory (tiles g) (tray g) (gameState g) g;
            alive = filter (\<lambda>t. \<not> removed t) (tiles g);
            ids = map letterId alive;
            mixed = fst (shuffle rand 0 ids)
        in g1\<lparr>tiles := reassign mixed 0 (tiles g)\<rparr>)"

definition goToIntro :: "game \<Rightarrow> game" where
  "goToIntro g =
     g\<lparr>timeouts := [], hasStarted := False, tiles := [], tray := [], history := [],
       gameState := Playing, startTime := None\<rparr>"

text \<open>The effect that detects the win, and the effect that runs when \<open>gameState\<close> has
  become \<open>win\<close>.\<close>

definition winCheck :: "game \<Rightarrow> game" where
  "winCheck g =
     (if \<not> hasStarted g then g
      else if gameState g \<noteq> Playing then g
      else if length (aliveTiles g) = 0 then g\<lparr>gameState := Win\<rparr> else g)"

text \<open>
  The merits of a win are computed on JavaScript numbers, which are IEEE-754 binary64
  values: the result of every arithmetic operator, and every decimal literal, is the
  real result rounded to the nearest number with a significand of 53 bits, a tie going
  to the even significand. \<open>binary64\<close> is this rounding on the reals; below
  \<open>2 powi (- 1022)\<close> the spacing stays that of the subnormal numbers. The level, the
  elapsed seconds and the move count are integers below \<open>2 ^ 53\<close>, which are binary64
  numbers;
  the level is between 1 and \<open>MAX_LEVEL\<close>, so no divisor is zero and no result leaves
  the finite range (infinities and NaN are not represented). Comparisons,
  \<open>Math.max\<close>, \<open>Math.min\<close> and \<open>Math.round\<close> are exact.
\<close>

definition roundEven :: "real \<Rightarrow> int" where
  "roundEven y =
     (let n = \<lfloor>y\<rfloor>; r = y - of_int n
      in if r < 1/2 then n else if 1/2 < r then n + 1
         else if even n then n else n + 1)"

definition binary64 :: "real \<Rightarrow> real" where
  "binary64 x =
     (if x = 0 then 0
      else let e = max \<lfloor>log 2 \<bar>x\<bar>\<rfloor> (- 1022); q = 2 powi (e - 52)
           in of_int (roundEven (x / q)) * q)"

definition plus64 :: "real \<Rightarrow> real \<Rightarrow> real" where
  "plus64 a b = binary64 (a + b)"

definition minus64 :: "real \<Rightarrow> real \<Rightarrow> real" where
  "minus64 a b = binary64 (a - b)"

definition times64 :: "real \<Rightarrow> real \<Rightarrow> real" where
  "times64 a b = binary64 (a * b)"

definition divide64 :: "real \<Rightarrow> real \<Rightarrow> real" where
  "divide64 a b = binary64 (a / b)"

definition earnedMerits :: "int \<Rightarrow> int \<Rightarrow> nat \<Rightarrow> int" where
  "earnedMerits level elapsed moves =
     (let timeTarget = plus64 90 (times64 (minus64 (of_int level) 1) 15);
          moveTarget = plus64 20 (times64 (minus64 (of_int level) 1) 3);
          timeRatio = divide64 (of_int elapsed) timeTarget;
          moveRatio = divide64 (of_nat moves) moveTarget;
          scoreTime = clamp (minus64 1 (times64 (minus64 timeRatio 1) 0.5)) 0 1;
          scoreMoves = clamp (minus64 1 (times64 (minus64 moveRatio 1) 0.5)) 0 1;
          scoreFinal = plus64 (times64 scoreTime (binary64 0.35))
                              (times64 scoreMoves (binary64 0.65));
          baseMerits = (if scoreFinal \<ge> binary64 0.85 then 10
                        else if scoreFinal \<ge> binary64 0.7 then 8
                        else if scoreFinal \<ge> binary64 0.55 then 6
                        else if scoreFinal \<ge> binary64 0.4 then 4 else 2);
          levelMultiplier = plus64 1 (times64 (minus64 (of_int level) 1) (binary64 0.1))
      in round (times64 baseMerits levelMultiplier))"

definition winEffect :: "game \<Rightarrow> game" where
  "winEffect g =
     (if gameState g \<noteq> Win then g
      else
        let earned = earnedMerits (currentLevel g) (elapsedSec g) (moveCount g)
        in g\<lparr>lastMerits := Some earned, totalMerits := totalMerits g + earned,
              timeouts := timeouts g @ [(WIN_BANNER_MS, GoToIntro)]\<rparr>)"

section \<open>Notions used to state the properties\<close>

text \<open>The symbols of the tray entries that are not matched out, in tray order.\<close>

definition pendingLetters :: "trayEntry list \<Rightarrow> string list" where
  "pendingLetters tr = map entry_letterId (filter (\<lambda>e. \<not> matchedOut e) tr)"

text \<open>The first symbol, in the order of first occurrence, that occurs twice or more.\<close>

fun firstDup :: "string list \<Rightarrow> string option" where
  "firstDup [] = None"
| "firstDup (x # xs) = (if x \<in> set xs then Some x else firstDup xs)"

text \<open>The distinct elements of a list in the order of their first occurrence: the keys
  of a \<open>Map\<close> filled from the list.\<close>

definition firstOcc :: "string list \<Rightarrow> string list" where
  "firstOcc P = rev (remdups (rev P))"

text \<open>A tray entry once it is marked, with its new glow deadline.\<close>

abbreviation (input) marked :: "trayEntry \<Rightarrow> int \<Rightarrow> trayEntry" where
  "marked e n \<equiv> e\<lparr>matchedOut := True, glowUntil := n + TRAY_MATCH_MS\<rparr>"

text \<open>
  The merit formula in the words of the specification: the two targets, the sub-score of
  a ratio clamped to the unit interval, the weighted score, the tier of a score and the
  rounded product with the level multiplier.
\<close>

definition spec_timeTarget :: "int \<Rightarrow> real" where
  "spec_timeTarget L = 90 + 15 * (of_int L - 1)"

definition spec_moveTarget :: "int \<Rightarrow> real" where
  "spec_moveTarget L = 20 + 3 * (of_int L - 1)"

definition spec_subscore :: "real \<Rightarrow> real" where
  "spec_subscore ratio =
     (let s = 1 - (ratio - 1) * 0.5 in if s < 0 then 0 else if 1 < s then 1 else s)"

definition spec_score :: "int \<Rightarrow> int \<Rightarrow> nat \<Rightarrow> real" where
  "spec_score L T M =
     0.35 * spec_subscore (of_int T / spec_timeTarget L) +
     0.65 * spec_subscore (of_nat M / spec_moveTarget L)"

definition spec_tier :: "real \<Rightarrow> real" where
  "spec_tier s =
     (if s < 0.40 then 2
      else if 0.40 \<le> s \<and> s < 0.55 then 4
      else if 0.55 \<le> s \<and> s < 0.70 then 6
      else if 0.70 \<le> s \<and> s < 0.85 then 8
      else 10)"

definition spec_merits :: "int \<Rightarrow> int \<Rightarrow> nat \<Rightarrow> int" where
  "spec_merits L T M = round (spec_tier (spec_score L T M) * (1 + 0.1 * (of_int L - 1)))"

text \<open>
  What holds in every state the session can reach. The pending entries of the tray, and
  of every snapshot, carry distinct symbols, and a snapshot is taken in play. While the
  history is empty no callback is pending, the tray is empty, the game is in play and no
  tile has left the board; the oldest snapshot was taken in such a state. A started game
  has tiles, now and in every snapshot.
\<close>

definition noneGone :: "tile list \<Rightarrow> bool" where
  "noneGone ts = (\<forall>t \<in> set ts. \<not> removed t \<and> \<not> animatingOut t)"

definition sessionInv :: "game \<Rightarrow> bool" where
  "sessionInv g =
     (distinct (pendingLetters (tray g)) \<and>
      (\<forall>s \<in> set (history g). distinct (pendingLetters (snap_tray s)) \<and> snap_gameState s = Playing) \<and>
      (history g = [] \<longrightarrow>
         timeouts g = [] \<and> tray g = [] \<and> gameState g = Playing \<and> noneGone (tiles g)) \<and>
      (history g \<noteq> [] \<longrightarrow>
         snap_tray (hd (history g)) = [] \<and> noneGone (snap_tiles (hd (history g)))) \<and>
      (hasStarted g \<longrightarrow> tiles g \<noteq> [] \<and> (\<forall>s \<in> set (history g). snap_tiles s \<noteq> [])))"

text \<open>
  The three conditions under which the solver frees a tile \<open>t\<close> of a list of live tiles:
  no other tile of its own or a higher layer overlaps its rectangle, and no tile of its
  layer is its left neighbour, or none is its right neighbour.
\<close>

definition unobstructed :: "tile list \<Rightarrow> real \<Rightarrow> real \<Rightarrow> real \<Rightarrow> real \<Rightarrow> tile \<Rightarrow> bool" where
  "unobstructed ts tw th zx zy t =
     (\<forall>u \<in> set ts. tileId u \<noteq> tileId t \<and> tile_z t \<le> tile_z u \<longrightarrow>
        \<not> rectsOverlapAny (tileRectBase t tw th zx zy) (tileRectBase u tw th zx zy))"

definition leftOpen :: "tile list \<Rightarrow> real \<Rightarrow> real \<Rightarrow> real \<Rightarrow> real \<Rightarrow> real \<Rightarrow> tile \<Rightarrow> bool" where
  "leftOpen ts tw th zx zy sideGap t =
     (\<forall>u \<in> set ts. tileId u \<noteq> tileId t \<and> tile_z u = tile_z t \<longrightarrow>
        \<not> (verticalOverlap (tileRectBase t tw th zx zy) (tileRectBase u tw th zx zy) \<and>
           rright (tileRectBase u tw th zx zy) \<le> rleft (tileRectBase t tw th zx zy) \<and>
           rleft (tileRectBase t tw th zx zy) - rright (tileRectBase u tw th zx zy) \<le> sideGap))"

definition rightOpen :: "tile list \<Rightarrow> real \<Rightarrow> real \<Rightarrow> real \<Rightarrow> real \<Rightarrow> real \<Rightarrow> tile \<Rightarrow> bool" where
  "rightOpen ts tw th zx zy sideGap t =
     (\<forall>u \<in> set ts. tileId u \<noteq> tileId t \<and> tile_z u = tile_z t \<longrightarrow>
        \<not> (verticalOverlap (tileRectBase t tw th zx zy) (tileRectBase u tw th zx zy) \<and>
           rleft (tileRectBase u tw th zx zy) \<ge> rright (tileRectBase t tw th zx zy) \<and>
           rleft (tileRectBase u tw th zx zy) - rright (tileRectBase t tw th zx zy) \<le> sideGap))"

section \<open>Session start\<close>

text \<open>\<open>for (const id of chunk) if (base.length < pairCount) base.push(id)\<close>.\<close>

fun pushWhile :: "real \<Rightarrow> string list \<Rightarrow> string list \<Rightarrow> string list" where
  "pushWhile pairCount [] base = base"
| "pushWhile pairCount (i # chunk) base =
     pushWhile pairCount chunk (if real (length base) < pairCount then base @ [i] else base)"

lemma length_shuffleFrom: "length (fst (shuffleFrom rand c k a)) = length a"
  by (induction k arbitrary: c a) (simp_all add: Let_def)

lemma length_shuffle: "length (fst (shuffle rand c a)) = length a"
  by (simp add: shuffle_def length_shuffleFrom)

lemma length_pushWhile_ge: "length base \<le> length (pushWhile pairCount chunk base)"
proof (induction chunk arbitrary: base)
  case Nil
  show ?case by simp
next
  case (Cons i chunk)
  have "length base \<le> length (if real (length base) < pairCount then base @ [i] else base)"
    by simp
  also have "\<dots> \<le> length (pushWhile pairCount (i # chunk) base)"
    using Cons.IH by simp
  finally show ?case .
qed

lemma length_pushWhile_grows:
  "chunk \<noteq> [] \<Longrightarrow> real (length base) < pairCount \<Longrightarrow>
   length base < length (pushWhile pairCount chunk base)"
proof (cases chunk)
  case Nil
  assume "chunk \<noteq> []"
  with Nil show ?thesis by simp
next
  case (Cons i rest)
  assume "real (length base) < pairCount"
  then have "pushWhile pairCount chunk base = pushWhile pairCount rest (base @ [i])"
    using Cons by simp
  moreover have "length (base @ [i]) \<le> length (pushWhile pairCount rest (base @ [i]))"
    by (rule length_pushWhile_ge)
  ultimately show ?thesis by simp
qed

text \<open>
  The \<open>while (base.length < pairCount)\<close> loop of \<open>initGame\<close>. Every round shuffles the
  letters again. With no letter at all a round adds nothing and the loop never ends:
  that is the value \<open>None\<close>.
\<close>

function fillBase ::
  "random \<Rightarrow> nat \<Rightarrow> string list \<Rightarrow> real \<Rightarrow> string list \<Rightarrow> (string list \<times> nat) option" where
  "fillBase rand c level1Letters pairCount base =
     (if \<not> real (length base) < pairCount then Some (base, c)
      else if level1Letters = [] then None
      else fillBase rand (snd (shuffle rand c level1Letters)) level1Letters pairCount
             (pushWhile pairCount (fst (shuffle rand c level1Letters)) base))"
  by pat_completeness auto
termination
proof (relation "measure (\<lambda>(rand, c, level1Letters, pairCount, base). nat \<lceil>pairCount\<rceil> - length base)")
  show "wf (measure (\<lambda>(rand, c, level1Letters, pairCount, base). nat \<lceil>pairCount\<rceil> - length base))"
    by simp
next
  fix rand :: random and c :: nat and level1Letters :: "string list"
    and pairCount :: real and base :: "string list"
  assume lt: "\<not> \<not> real (length base) < pairCount" and ne: "level1Letters \<noteq> []"
  let ?chunk = "fst (shuffle rand c level1Letters)"
  have "length ?chunk = length level1Letters" by (rule length_shuffle)
  with ne have "?chunk \<noteq> []" by auto
  with lt have grow: "length base < length (pushWhile pairCount ?chunk base)"
    by (simp add: length_pushWhile_grows)
  from lt have "length base < nat \<lceil>pairCount\<rceil>" by linarith
  with grow show "((rand, snd (shuffle rand c level1Letters), level1Letters, pairCount,
           pushWhile pairCount ?chunk base),
          (rand, c, level1Letters, pairCount, base))
        \<in> measure (\<lambda>(rand, c, level1Letters, pairCount, base). nat \<lceil>pairCount\<rceil> - length base)"
    by simp
qed

declare fillBase.simps [simp del]

text \<open>\<open>layout.map((p, idx) => ...)\<close>, with the index counted from \<open>idx\<close>.\<close>

fun tilesFrom :: "string list \<Rightarrow> nat set \<Rightarrow> nat \<Rightarrow> position list \<Rightarrow> tile list" where
  "tilesFrom pairIds coverSet idx [] = []"
| "tilesFrom pairIds coverSet idx (p # ps) =
     \<lparr> tileId = pos_tileId p, letterId = pairIds ! idx,
       tile_x = pos_x p, tile_y = pos_y p, tile_z = pos_z p,
       removed = False, animatingOut = False, covered = (idx \<in> coverSet) \<rparr>
     # tilesFrom pairIds coverSet (Suc idx) ps"

text \<open>
  \<open>initGame\<close> reads \<open>positionsPx\<close> and \<open>levelConfig.coverRate\<close> of the last render; they
  are the parameters \<open>layout\<close> and \<open>rate\<close>. The table \<open>letters\<close> comes from
  \<open>letters.json\<close>; only the \<open>id\<close> of a letter is read, so it is the list of the ids.
  \<open>now\<close> is the reading of \<open>Date.now()\<close>.
\<close>

definition initGame ::
  "string list \<Rightarrow> random \<Rightarrow> int \<Rightarrow> position list \<Rightarrow> real \<Rightarrow> game \<Rightarrow> game option" where
  "initGame letters rand now layout rate g =
     (let pairCount = real (length layout) / 2;
          level1Letters = js_slice0 letters 10
      in case fillBase rand 0 level1Letters pairCount [] of
           None \<Rightarrow> None
         | Some (base, c1) \<Rightarrow>
             let pairIds = fst (shuffle rand c1 (base @ base));
                 c2 = snd (shuffle rand c1 (base @ base));
                 coverCount = round (real (length pairIds) * rate);
                 coverSet = set (js_slice0 (fst (shuffle rand c2 [0..<length pairIds])) coverCount);
                 newTiles = tilesFrom pairIds coverSet 0 layout
             in Some (g\<lparr>timeouts := [], tiles := newTiles, tray := [], history := [],
                        gameState := Playing, moveCount := 0, elapsedSec := 0,
                        startTime := Some now\<rparr>))"

text \<open>The button that starts the selected level, and the effect that starts a game when
  the component has been started and holds no tile.\<close>

definition startGame :: "string list \<Rightarrow> random \<Rightarrow> int \<Rightarrow> game \<Rightarrow> game option" where
  "startGame letters rand now g =
     initGame letters rand now (positionsPx g) (coverRate (levelConfigOf (currentLevel g)))
       (g\<lparr>hasStarted := True\<rparr>)"

definition autoInit :: "string list \<Rightarrow> random \<Rightarrow> int \<Rightarrow> game \<Rightarrow> game option" where
  "autoInit letters rand now g =
     (if hasStarted g \<and> length (positionsPx g) \<noteq> 0 \<and> length (tiles g) = 0
      then initGame letters rand now (positionsPx g) (coverRate (levelConfigOf (currentLevel g))) g
      else Some g)"

section \<open>Timers and the other events\<close>

definition runTimer :: "action \<Rightarrow> game \<Rightarrow> game" where
  "runTimer a g =
     (case a of
        ClearTray ids \<Rightarrow> g\<lparr>tray := filter (\<lambda>it. trayId it \<notin> set ids) (tray g)\<rparr>
      | MarkRemoved tid \<Rightarrow>
          g\<lparr>tiles := map (\<lambda>x. if tileId x = tid then x\<lparr>removed := True\<rparr> else x) (tiles g)\<rparr>
      | GoToIntro \<Rightarrow> goToIntro g)"

text \<open>The \<open>k\<close>-th pending callback runs and is no longer pending.\<close>

definition fire :: "nat \<Rightarrow> game \<Rightarrow> game" where
  "fire k g =
     (if k < length (timeouts g)
      then runTimer (snd (timeouts g ! k))
             (g\<lparr>timeouts := take k (timeouts g) @ drop (Suc k) (timeouts g)\<rparr>)
      else g)"

text \<open>The interval that updates the elapsed time; \<open>if (startTime)\<close> is false for
  \<open>null\<close> and for \<open>0\<close>.\<close>

definition tick :: "int \<Rightarrow> game \<Rightarrow> game" where
  "tick now g =
     (if \<not> hasStarted g \<or> gameState g \<noteq> Playing then g
      else case startTime g of
        None \<Rightarrow> g
      | Some s \<Rightarrow> if s = 0 then g else g\<lparr>elapsedSec := \<lfloor>real_of_int (now - s) / 1000\<rfloor>\<rparr>)"

definition onResize :: "real \<Rightarrow> game \<Rightarrow> game" where
  "onResize w g =
     (let tw = clamp (Math_round (w * 0.11)) 58 86;
          th = Math_round (tw * 1.18)
      in g\<lparr>view_tileW := tw, view_tileH := th\<rparr>)"

text \<open>The level buttons are the levels \<open>1\<close> to \<open>MAX_LEVEL\<close>.\<close>

definition setLevel :: "int \<Rightarrow> game \<Rightarrow> game" where
  "setLevel lvl g = (if 1 \<le> lvl \<and> lvl \<le> MAX_LEVEL then g\<lparr>currentLevel := lvl\<rparr> else g)"

section \<open>The session as a transition system\<close>

datatype event =
    Start random int
  | AutoInit random int
  | Pick pickEnv string
  | Undo
  | Reshuffle random
  | Fire nat
  | WinCheck
  | WinEffect
  | Tick int
  | Resize real
  | SetLevel int

text \<open>A step is \<open>None\<close> when the handler never returns.\<close>

fun step :: "string list \<Rightarrow> event \<Rightarrow> game \<Rightarrow> game option" where
  "step letters (Start rand now) g = startGame letters rand now g"
| "step letters (AutoInit rand now) g = autoInit letters rand now g"
| "step letters (Pick env tid) g = Some (pickTile env tid g)"
| "step letters Undo g = Some (undo g)"
| "step letters (Reshuffle rand) g = Some (reshuffle rand g)"
| "step letters (Fire k) g = Some (fire k g)"
| "step letters WinCheck g = Some (winCheck g)"
| "step letters WinEffect g = Some (winEffect g)"
| "step letters (Tick now) g = Some (tick now g)"
| "step letters (Resize w) g = Some (onResize w g)"
| "step letters (SetLevel lvl) g = Some (setLevel lvl g)"

definition initialGame :: game where
  "initialGame =
     \<lparr> gameState = Playing, tiles = [], tray = [], history = [], hasStarted = False,
       currentLevel = 1, moveCount = 0, startTime = None, elapsedSec = 0, totalMerits = 0,
       lastMerits = None, view_tileW = 72, view_tileH = 84, timeouts = [] \<rparr>"

inductive reachable :: "string list \<Rightarrow> game \<Rightarrow> bool" for letters :: "string list" where
  initial: "reachable letters initialGame"
| after: "reachable letters g \<Longrightarrow> step letters ev g = Some g' \<Longrightarrow> reachable letters g'"

section \<open>Example boards\<close>

definition mkTile :: "string \<Rightarrow> string \<Rightarrow> real \<Rightarrow> real \<Rightarrow> int \<Rightarrow> tile" where
  "mkTile i l xx yy zz = \<lparr> tileId = i, letterId = l, tile_x = xx, tile_y = yy, tile_z = zz,
      removed = False, animatingOut = False, covered = False \<rparr>"

text \<open>Two tiles on top of each other, in the layers 0 and 1.\<close>

definition stackedBoard :: "tile list" where
  "stackedBoard = [mkTile ''t0'' ''alef'' 0 0 0, mkTile ''t1'' ''alef'' 0 0 1]"

text \<open>Three tiles side by side in one layer, at the spacing \<open>tileW * 1.02\<close> of
  \<open>buildLayout\<close> for \<open>tileW = 72\<close>.\<close>

definition rowBoard :: "tile list" where
  "rowBoard = [mkTile ''t0'' ''alef'' 0 0 0, mkTile ''t1'' ''bet'' 73.44 0 0, mkTile ''t2'' ''alef'' 146.88 0 0]"

text \<open>Two tiles of layer 0 in different rows and a tile of layer 1 far from both.\<close>

definition spreadBoard :: "tile list" where
  "spreadBoard = [mkTile ''t0'' ''alef'' 0 0 0, mkTile ''t1'' ''bet'' 0 200 0, mkTile ''t2'' ''alef'' 300 300 1]"

definition mkEntry :: "string \<Rightarrow> string \<Rightarrow> string \<Rightarrow> bool \<Rightarrow> trayEntry" where
  "mkEntry i t l m = \<lparr> trayId = i, entry_tileId = t, entry_letterId = l, glowUntil = 0, matchedOut = m \<rparr>"

text \<open>A pending \<open>bet\<close>, a matched-out \<open>alef\<close> and three pending \<open>alef\<close>.\<close>

definition exampleTray :: "trayEntry list" where
  "exampleTray =
     [mkEntry ''a'' ''t0'' ''bet'' False, mkEntry ''b'' ''t1'' ''alef'' True,
      mkEntry ''c'' ''t2'' ''alef'' False, mkEntry ''d'' ''t3'' ''alef'' False,
      mkEntry ''e'' ''t4'' ''alef'' False]"

text \<open>A game in play whose tray is full: one free, uncovered tile is left on the board,
  and the snapshot of the last move is on the history.\<close>

definition fullTray :: "trayEntry list" where
  "fullTray =
     [mkEntry ''t0-1-aaaaaa'' ''t0'' ''alef'' False, mkEntry ''t1-2-bbbbbb'' ''t1'' ''bet'' False,
      mkEntry ''t2-3-cccccc'' ''t2'' ''gimel'' False, mkEntry ''t3-4-dddddd'' ''t3'' ''dalet'' False]"

definition fullTrayGame :: game where
  "fullTrayGame =
     \<lparr> gameState = Playing, tiles = [mkTile ''t4'' ''he'' 0 0 0], tray = fullTray,
       history = [\<lparr> snap_tiles = [mkTile ''t3'' ''dalet'' 100 0 0, mkTile ''t4'' ''he'' 0 0 0],
                    snap_tray = take 3 fullTray, snap_gameState = Playing \<rparr>],
       hasStarted = True, currentLevel = 1, moveCount = 4, startTime = Some 1, elapsedSec = 10,
       totalMerits = 0, lastMerits = None, view_tileW = 72, view_tileH = 84, timeouts = [] \<rparr>"

definition exampleEnv :: pickEnv where
  "exampleEnv = \<lparr> Date_now = (\<lambda>n. 1000), randomSuffix = ''k3x9q1'' \<rparr>"

text \<open>A game in play with two free tiles of the same symbol and an empty tray.\<close>

definition pairGame :: game where
  "pairGame =
     \<lparr> gameState = Playing,
       tiles = [mkTile ''t0'' ''alef'' 0 0 0, mkTile ''t1'' ''alef'' 0 200 0],
       tray = [], history = [], hasStarted = True, currentLevel = 1, moveCount = 0,
       startTime = Some 1, elapsedSec = 0, totalMerits = 0, lastMerits = None,
       view_tileW = 72, view_tileH = 84, timeouts = [] \<rparr>"

text \<open>A random source, and a table of letter ids.\<close>

definition quarterRandom :: random where
  "quarterRandom = (\<lambda>n. Abs_unitReal (1 / 4))"

definition exampleLetters :: "string list" where
  "exampleLetters = [''alef'', ''bet'', ''gimel'', ''dalet'', ''he'', ''vav'', ''zayin'',
     ''chet'', ''tet'', ''yod'', ''kaf'', ''lamed'']"

text \<open>A game in play with three live tiles and a removed one, and the same game lost.\<close>

definition shuffleGame :: game where
  "shuffleGame =
     pairGame\<lparr>tiles := [mkTile ''t0'' ''alef'' 0 0 0, (mkTile ''t1'' ''bet'' 0 200 0)\<lparr>removed := True\<rparr>,
                        mkTile ''t2'' ''gimel'' 200 0 0, mkTile ''t3'' ''dalet'' 200 200 0]\<rparr>"

definition lostGame :: game where
  "lostGame = shuffleGame\<lparr>gameState := Lose\<rparr>"

text \<open>A started game of level 3 in play whose last tile has left the board, after 200
  seconds and 45 moves, and the same game once the win is detected.\<close>

definition clearedGame :: game where
  "clearedGame =
     pairGame\<lparr>tiles := [(mkTile ''t0'' ''alef'' 0 0 0)\<lparr>removed := True\<rparr>,
                        (mkTile ''t1'' ''alef'' 0 200 0)\<lparr>animatingOut := True\<rparr>],
              currentLevel := 3, elapsedSec := 200, moveCount := 45, totalMerits := 12\<rparr>"

definition wonGame :: game where
  "wonGame = clearedGame\<lparr>gameState := Win\<rparr>"

text \<open>A game won on the first level after 198 seconds and 44 moves, with 12 merits so far.\<close>

definition tieWin :: game where
  "tieWin = wonGame\<lparr>currentLevel := 1, elapsedSec := 198, moveCount := 44\<rparr>"

text \<open>The game with the full tray once it is lost.\<close>

definition lostFullTray :: game where
  "lostFullTray = fullTrayGame\<lparr>gameState := Lose\<rparr>"

text \<open>
  A session on the first level. With the random source \<open>quarterRandom\<close> and the letters
  \<open>exampleLetters\<close>, \<open>initGame\<close> deals the symbols \<open>examplePairIds\<close> onto the 24 slots of
  the layout for tiles of 72 by 84: that is \<open>levelOneBoard\<close>. \<open>gone ids\<close> marks the tiles
  that have been activated. Five activations follow: two tiles of the top layer, a tile
  of the bottom layer, the tile of the middle layer with the same symbol, and one more
  tile while the matched pair is still in the tray.
\<close>

definition examplePairIds :: "string list" where
  "examplePairIds = [''chet'', ''tet'', ''dalet'', ''he'', ''tet'', ''chet'', ''chet'',
     ''yod'', ''gimel'', ''dalet'', ''alef'', ''dalet'', ''chet'', ''alef'', ''he'', ''vav'',
     ''zayin'', ''bet'', ''vav'', ''yod'', ''gimel'', ''dalet'', ''zayin'', ''bet'']"

definition startedGame :: game where
  "startedGame = initialGame\<lparr>hasStarted := True,
     tiles := tilesFrom examplePairIds {} 0 (buildLayout 72 84 1 24), startTime := Some 0\<rparr>"

definition levelOneBoard :: "tile list" where
  "levelOneBoard =
    [mkTile ''t0'' ''chet'' 18 103.68 0, mkTile ''t1'' ''tet'' 91.44 103.68 0,
     mkTile ''t2'' ''dalet'' 164.88 103.68 0, mkTile ''t3'' ''he'' 238.32 103.68 0,
     mkTile ''t4'' ''tet'' 18 189.36 0, mkTile ''t5'' ''chet'' 91.44 189.36 0,
     mkTile ''t6'' ''chet'' 164.88 189.36 0, mkTile ''t7'' ''yod'' 238.32 189.36 0,
     mkTile ''t8'' ''gimel'' 91.44 275.04 0, mkTile ''t9'' ''dalet'' 164.88 275.04 0,
     mkTile ''t10'' ''alef'' 91.44 18 0, mkTile ''t11'' ''dalet'' 164.88 18 0,
     mkTile ''t12'' ''chet'' 91.44 103.68 1, mkTile ''t13'' ''alef'' 164.88 103.68 1,
     mkTile ''t14'' ''he'' 91.44 189.36 1, mkTile ''t15'' ''vav'' 164.88 189.36 1,
     mkTile ''t16'' ''zayin'' 91.44 18 1, mkTile ''t17'' ''bet'' 164.88 18 1,
     mkTile ''t18'' ''vav'' 91.44 275.04 1, mkTile ''t19'' ''yod'' 164.88 275.04 1,
     mkTile ''t20'' ''gimel'' 91.44 103.68 2, mkTile ''t21'' ''dalet'' 164.88 103.68 2,
     mkTile ''t22'' ''zayin'' 91.44 189.36 2, mkTile ''t23'' ''bet'' 164.88 189.36 2]"

definition gone :: "string list \<Rightarrow> tile list \<Rightarrow> tile list" where
  "gone ids ts = map (\<lambda>x. if tileId x \<in> set ids then x\<lparr>animatingOut := True\<rparr> else x) ts"

definition pick1 :: game where "pick1 = pickTile exampleEnv ''t20'' startedGame"
definition pick2 :: game where "pick2 = pickTile exampleEnv ''t22'' pick1"
definition pick3 :: game where "pick3 = pickTile exampleEnv ''t0'' pick2"
definition pick4 :: game where "pick4 = pickTile exampleEnv ''t12'' pick3"
definition pick5 :: game where "pick5 = pickTile exampleEnv ''t4'' pick4"

section \<open>Properties of the occlusion solver\<close>

lemma buildRectById_Some:
  "k \<in> tileId ` set ts \<or> m k \<noteq> None \<Longrightarrow> buildRectById ts tileW tileH zx zy m k \<noteq> None"
  by (induction ts arbitrary: m) auto

lemma buildRectById_defined:
  "t \<in> set ts \<Longrightarrow> buildRectById ts tileW tileH zx zy m (tileId t) \<noteq> None"
  using buildRectById_Some[of "tileId t" ts m] by (simp add: imageI)

lemma buildRectById_other:
  "k \<notin> tileId ` set ts \<Longrightarrow> buildRectById ts tileW tileH zx zy m k = m k"
  by (induction ts arbitrary: m) auto

lemma buildRectById_distinct:
  "distinct (map tileId ts) \<Longrightarrow> t \<in> set ts \<Longrightarrow>
   buildRectById ts tileW tileH zx zy m (tileId t) = Some (tileRectBase t tileW tileH zx zy)"
proof (induction ts arbitrary: m)
  case Nil then show ?case by simp
next
  case (Cons a ts)
  show ?case
  proof (cases "t = a")
    case True
    with Cons.prems have "tileId t \<notin> tileId ` set ts" by auto
    then show ?thesis using True by (simp add: buildRectById_other)
  next
    case False
    with Cons show ?thesis by auto
  qed
qed

lemma overlapScan_total:
  "m (tileId t) \<noteq> None \<Longrightarrow> \<forall>u \<in> set us. m (tileId u) \<noteq> None \<Longrightarrow> \<exists>w. overlapScan m t us = Inr w"
  by (induction us) auto

lemma overlapScan_reason:
  "overlapScan m t us = Inr (Some w) \<Longrightarrow> w = ''blocked:overlap-above'' \<or> w = ''blocked:overlap-same''"
  by (induction us) (auto split: if_splits option.splits)

lemma overlapScan_clear:
  "m (tileId t) = Some r \<Longrightarrow>
   \<forall>u \<in> set us. tileId u \<noteq> tileId t \<longrightarrow>
     (\<exists>ro. m (tileId u) = Some ro \<and> (rectsOverlapAny r ro \<longrightarrow> tile_z u < tile_z t)) \<Longrightarrow>
   overlapScan m t us = Inr None"
  by (induction us) auto

lemma overlapScan_hit:
  "overlapScan m t us = Inr (Some w) \<Longrightarrow>
   \<exists>u \<in> set us. \<exists>r ro. tileId u \<noteq> tileId t \<and> m (tileId t) = Some r \<and> m (tileId u) = Some ro \<and>
      rectsOverlapAny r ro \<and> tile_z t \<le> tile_z u"
  by (induction us) (auto split: if_splits option.splits)

lemma overlapPass_total:
  "\<forall>t \<in> set ts. \<exists>w. overlapScan m t all = Inr w \<Longrightarrow> \<exists>res. overlapPass m all ts acc = Inr res"
proof (induction ts arbitrary: acc)
  case Nil then show ?case by (cases acc) auto
next
  case (Cons t ts)
  obtain bT bS R where acc: "acc = (bT, bS, R)" using prod_cases3 by blast
  from Cons.prems obtain w where w: "overlapScan m t all = Inr w" by auto
  from Cons have IH: "\<And>acc'. \<exists>res. overlapPass m all ts acc' = Inr res" by simp
  show ?case using w IH by (cases w) (auto simp: acc)
qed

lemma overlapPass_dom:
  "overlapPass m all ts (bT, bS, R) = Inr (bT', bS', R') \<Longrightarrow> dom R = bT \<union> bS \<Longrightarrow>
   dom R' = bT' \<union> bS'"
proof (induction ts arbitrary: bT bS R)
  case Nil then show ?case by simp
next
  case (Cons t ts)
  show ?case
  proof (cases "overlapScan m t all")
    case (Inl e) with Cons.prems show ?thesis by simp
  next
    case (Inr w)
    show ?thesis
    proof (cases w)
      case None
      with Inr Cons show ?thesis by simp
    next
      case (Some why)
      show ?thesis
      proof (cases "why = ''blocked:overlap-above''")
        case True
        with Some Inr Cons.prems
        have "overlapPass m all ts (insert (tileId t) bT, bS, R(tileId t \<mapsto> why)) = Inr (bT', bS', R')"
          by simp
        moreover have "dom (R(tileId t \<mapsto> why)) = insert (tileId t) bT \<union> bS"
          using Cons.prems(2) by auto
        ultimately show ?thesis by (rule Cons.IH)
      next
        case False
        with Some Inr Cons.prems
        have "overlapPass m all ts (bT, insert (tileId t) bS, R(tileId t \<mapsto> why)) = Inr (bT', bS', R')"
          by simp
        moreover have "dom (R(tileId t \<mapsto> why)) = bT \<union> insert (tileId t) bS"
          using Cons.prems(2) by auto
        ultimately show ?thesis by (rule Cons.IH)
      qed
    qed
  qed
qed

lemma overlapPass_above:
  "overlapPass m all ts (bT, bS, R) = Inr (bT', bS', R') \<Longrightarrow>
   (\<forall>k. R k = Some ''blocked:overlap-above'' \<longrightarrow> k \<in> bT) \<Longrightarrow>
   R' k = Some ''blocked:overlap-above'' \<Longrightarrow> k \<in> bT'"
proof (induction ts arbitrary: bT bS R)
  case Nil then show ?case by simp
next
  case (Cons t ts)
  show ?case
  proof (cases "overlapScan m t all")
    case (Inl e) with Cons.prems show ?thesis by simp
  next
    case (Inr w)
    show ?thesis
    proof (cases w)
      case None
      with Inr Cons show ?thesis by simp
    next
      case (Some why)
      show ?thesis
      proof (cases "why = ''blocked:overlap-above''")
        case True
        with Some Inr Cons.prems
        have "overlapPass m all ts (insert (tileId t) bT, bS, R(tileId t \<mapsto> why)) = Inr (bT', bS', R')"
          by simp
        moreover have "\<forall>k. (R(tileId t \<mapsto> why)) k = Some ''blocked:overlap-above'' \<longrightarrow> k \<in> insert (tileId t) bT"
          using Cons.prems(2) by auto
        ultimately show ?thesis using Cons.prems(3) by (rule Cons.IH)
      next
        case False
        with Some Inr Cons.prems
        have "overlapPass m all ts (bT, insert (tileId t) bS, R(tileId t \<mapsto> why)) = Inr (bT', bS', R')"
          by simp
        moreover have "\<forall>k. (R(tileId t \<mapsto> why)) k = Some ''blocked:overlap-above'' \<longrightarrow> k \<in> bT"
          using Cons.prems(2) False by auto
        ultimately show ?thesis using Cons.prems(3) by (rule Cons.IH)
      qed
    qed
  qed
qed

lemma overlapPass_unblocked:
  "overlapPass m all ts (bT, bS, R) = Inr (bT', bS', R') \<Longrightarrow> k \<notin> bT \<union> bS \<Longrightarrow>
   \<forall>t \<in> set ts. tileId t = k \<longrightarrow> overlapScan m t all = Inr None \<Longrightarrow> k \<notin> bT' \<union> bS'"
proof (induction ts arbitrary: bT bS R)
  case Nil then show ?case by simp
next
  case (Cons t ts)
  show ?case
  proof (cases "overlapScan m t all")
    case (Inl e) with Cons.prems show ?thesis by simp
  next
    case (Inr w)
    show ?thesis
    proof (cases w)
      case None
      with Inr Cons show ?thesis by simp
    next
      case (Some why)
      with Inr Cons.prems(3) have ne: "tileId t \<noteq> k" by auto
      show ?thesis
      proof (cases "why = ''blocked:overlap-above''")
        case True
        with Some Inr Cons.prems
        have "overlapPass m all ts (insert (tileId t) bT, bS, R(tileId t \<mapsto> why)) = Inr (bT', bS', R')"
          by simp
        moreover have "k \<notin> insert (tileId t) bT \<union> bS" using ne Cons.prems(2) by auto
        ultimately show ?thesis using Cons.prems(3) by (intro Cons.IH) auto
      next
        case False
        with Some Inr Cons.prems
        have "overlapPass m all ts (bT, insert (tileId t) bS, R(tileId t \<mapsto> why)) = Inr (bT', bS', R')"
          by simp
        moreover have "k \<notin> bT \<union> insert (tileId t) bS" using ne Cons.prems(2) by auto
        ultimately show ?thesis using Cons.prems(3) by (intro Cons.IH) auto
      qed
    qed
  qed
qed

lemma groupByLayer_get:
  "groupByLayer ts sl zz =
     (if \<exists>t \<in> set ts. tile_z t = zz
      then Some ((case sl zz of None \<Rightarrow> [] | Some l \<Rightarrow> l) @ filter (\<lambda>t. tile_z t = zz) ts)
      else sl zz)"
  by (induction ts arbitrary: sl) auto

lemma layerTiles_eq:
  "(case groupByLayer ts Map.empty zz of None \<Rightarrow> [] | Some l \<Rightarrow> l) = filter (\<lambda>t. tile_z t = zz) ts"
  by (auto simp: groupByLayer_get filter_empty_conv)

lemma lateralScan_total:
  "m (tileId t) \<noteq> None \<Longrightarrow> \<forall>u \<in> set us. m (tileId u) \<noteq> None \<Longrightarrow>
   \<exists>fl. lateralScan m sideGap t us hl hr = Inr fl"
  by (induction us arbitrary: hl hr) (auto simp: Let_def)

lemma lateralScan_clear:
  "m (tileId t) = Some rt \<Longrightarrow>
   \<forall>u \<in> set us. tileId u \<noteq> tileId t \<longrightarrow>
     (\<exists>ro. m (tileId u) = Some ro \<and> \<not> verticalOverlap rt ro) \<Longrightarrow>
   lateralScan m sideGap t us hl hr = Inr (hl, hr)"
  by (induction us) auto

lemma dom_lam_upd: "dom (\<lambda>a. if a = k then Some v else R a) = insert k (dom R)"
  by (auto simp: dom_def)

lemma lateralPass_total:
  "\<forall>t \<in> set ts. \<exists>fl. lateralScan m sg t (layerOf sl t) False False = Inr fl \<Longrightarrow>
   \<exists>st'. lateralPass m sl sg bT bS ts st = Inr st'"
proof (induction ts arbitrary: st)
  case Nil then show ?case by simp
next
  case (Cons t ts)
  from Cons.prems obtain hl hr where fl: "lateralScan m sg t (layerOf sl t) False False = Inr (hl, hr)"
    by fastforce
  from Cons have IH: "\<And>st. \<exists>st'. lateralPass m sl sg bT bS ts st = Inr st'" by simp
  show ?case using fl IH by (simp add: Let_def)
qed

lemma lateralPass_mono:
  "lateralPass m sl sg bT bS ts st = Inr st' \<Longrightarrow>
   free st \<subseteq> free st' \<and> dom (reasonById st) \<subseteq> dom (reasonById st')"
proof (induction ts arbitrary: st)
  case Nil then show ?case by simp
next
  case (Cons t ts)
  show ?case
  proof (cases "tileId t \<in> bT \<or> tileId t \<in> bS")
    case True
    with Cons show ?thesis by simp
  next
    case False
    with Cons.prems obtain hl hr where
      fl: "lateralScan m sg t (layerOf sl t) False False = Inr (hl, hr)"
      by (auto simp: Let_def split: sum.splits)
    show ?thesis
    proof (cases "\<not> hl \<or> \<not> hr")
      case True
      with False fl Cons.prems
      have "lateralPass m sl sg bT bS ts (st\<lparr>free := insert (tileId t) (free st)\<rparr>) = Inr st'"
        by (simp add: Let_def)
      from Cons.IH[OF this] show ?thesis by auto
    next
      case F2: False
      with False fl Cons.prems
      have "lateralPass m sl sg bT bS ts
              (st\<lparr>reasonById := (reasonById st)(tileId t \<mapsto> ''blocked:lateral'')\<rparr>) = Inr st'"
        by (simp add: Let_def)
      from Cons.IH[OF this]
      have a: "free st \<subseteq> free st'"
        and b: "dom ((reasonById st)(tileId t \<mapsto> ''blocked:lateral'')) \<subseteq> dom (reasonById st')"
        by (simp_all add: dom_lam_upd)
      have "dom (reasonById st) \<subseteq> dom ((reasonById st)(tileId t \<mapsto> ''blocked:lateral''))"
        by (simp add: subset_insertI)
      with a b show ?thesis by blast
    qed
  qed
qed

lemma lateralPass_free_unblocked:
  "lateralPass m sl sg bT bS ts st = Inr st' \<Longrightarrow> k \<in> free st' \<Longrightarrow>
   k \<in> free st \<or> k \<notin> bT \<union> bS"
proof (induction ts arbitrary: st)
  case Nil then show ?case by simp
next
  case (Cons t ts)
  show ?case
  proof (cases "tileId t \<in> bT \<or> tileId t \<in> bS")
    case True
    with Cons show ?thesis by simp
  next
    case False
    with Cons.prems obtain hl hr where
      fl: "lateralScan m sg t (layerOf sl t) False False = Inr (hl, hr)"
      by (auto simp: Let_def split: sum.splits)
    show ?thesis
    proof (cases "\<not> hl \<or> \<not> hr")
      case True
      with False fl Cons.prems
      have "lateralPass m sl sg bT bS ts (st\<lparr>free := insert (tileId t) (free st)\<rparr>) = Inr st'"
        by (simp add: Let_def)
      from Cons.IH[OF this Cons.prems(2)] False show ?thesis by auto
    next
      case F2: False
      with False fl Cons.prems
      have "lateralPass m sl sg bT bS ts
              (st\<lparr>reasonById := (reasonById st)(tileId t \<mapsto> ''blocked:lateral'')\<rparr>) = Inr st'"
        by (simp add: Let_def)
      from Cons.IH[OF this Cons.prems(2)] show ?thesis by auto
    qed
  qed
qed

lemma lateralPass_cover:
  "lateralPass m sl sg bT bS ts st = Inr st' \<Longrightarrow> t \<in> set ts \<Longrightarrow>
   tileId t \<in> bT \<union> bS \<or> tileId t \<in> free st' \<or> tileId t \<in> dom (reasonById st')"
proof (induction ts arbitrary: st)
  case Nil then show ?case by simp
next
  case (Cons a ts)
  show ?case
  proof (cases "tileId a \<in> bT \<or> tileId a \<in> bS")
    case True
    with Cons show ?thesis by auto
  next
    case False
    with Cons.prems obtain hl hr where
      fl: "lateralScan m sg a (layerOf sl a) False False = Inr (hl, hr)"
      by (auto simp: Let_def split: sum.splits)
    show ?thesis
    proof (cases "\<not> hl \<or> \<not> hr")
      case True
      with False fl Cons.prems
      have run: "lateralPass m sl sg bT bS ts (st\<lparr>free := insert (tileId a) (free st)\<rparr>) = Inr st'"
        by (simp add: Let_def)
      show ?thesis
      proof (cases "t = a")
        case True
        with lateralPass_mono[OF run] show ?thesis by auto
      next
        case False
        with Cons.prems(2) have "t \<in> set ts" by simp
        from Cons.IH[OF run this] show ?thesis .
      qed
    next
      case F2: False
      with False fl Cons.prems
      have run: "lateralPass m sl sg bT bS ts
              (st\<lparr>reasonById := (reasonById st)(tileId a \<mapsto> ''blocked:lateral'')\<rparr>) = Inr st'"
        by (simp add: Let_def)
      show ?thesis
      proof (cases "t = a")
        case True
        with lateralPass_mono[OF run] show ?thesis by auto
      next
        case False
        with Cons.prems(2) have "t \<in> set ts" by simp
        from Cons.IH[OF run this] show ?thesis .
      qed
    qed
  qed
qed

lemma lateralPass_free_in:
  "lateralPass m sl sg bT bS ts st = Inr st' \<Longrightarrow> t \<in> set ts \<Longrightarrow> tileId t \<notin> bT \<union> bS \<Longrightarrow>
   lateralScan m sg t (layerOf sl t) False False = Inr (hl, hr) \<Longrightarrow> \<not> hl \<or> \<not> hr \<Longrightarrow>
   tileId t \<in> free st'"
proof (induction ts arbitrary: st)
  case Nil then show ?case by simp
next
  case (Cons a ts)
  show ?case
  proof (cases "t = a")
    case True
    with Cons.prems
    have run: "lateralPass m sl sg bT bS ts (st\<lparr>free := insert (tileId a) (free st)\<rparr>) = Inr st'"
      by (auto simp: Let_def)
    from lateralPass_mono[OF run] True show ?thesis by auto
  next
    case False
    with Cons.prems(2) have tin: "t \<in> set ts" by simp
    from Cons.prems(1) obtain st1 where "lateralPass m sl sg bT bS ts st1 = Inr st'"
      by (auto simp: Let_def split: if_splits sum.splits)
    from Cons.IH[OF this tin Cons.prems(3,4,5)] show ?thesis .
  qed
qed

lemma lateralPass_disjoint:
  "lateralPass m sl sg bT bS ts st = Inr st' \<Longrightarrow> distinct (map tileId ts) \<Longrightarrow>
   free st \<inter> dom (reasonById st) = {} \<Longrightarrow>
   \<forall>t \<in> set ts. tileId t \<notin> free st \<and> (tileId t \<in> dom (reasonById st) \<longrightarrow> tileId t \<in> bT \<union> bS) \<Longrightarrow>
   free st' \<inter> dom (reasonById st') = {}"
proof (induction ts arbitrary: st)
  case Nil then show ?case by simp
next
  case (Cons t ts)
  from Cons.prems(2) have dist: "distinct (map tileId ts)" by simp
  from Cons.prems(2) have "tileId t \<notin> tileId ` set ts" by simp
  then have fresh: "\<forall>u \<in> set ts. tileId u \<noteq> tileId t" by (metis imageI)
  show ?case
  proof (cases "tileId t \<in> bT \<or> tileId t \<in> bS")
    case True
    with Cons.prems have "lateralPass m sl sg bT bS ts st = Inr st'" by simp
    from Cons.IH[OF this dist Cons.prems(3)] Cons.prems(4) show ?thesis by auto
  next
    case False
    with Cons.prems obtain hl hr where
      fl: "lateralScan m sg t (layerOf sl t) False False = Inr (hl, hr)"
      by (auto simp: Let_def split: sum.splits)
    from False Cons.prems(4) have notR: "tileId t \<notin> dom (reasonById st)" and notF: "tileId t \<notin> free st"
      by auto
    show ?thesis
    proof (cases "\<not> hl \<or> \<not> hr")
      case True
      with False fl Cons.prems
      have run: "lateralPass m sl sg bT bS ts (st\<lparr>free := insert (tileId t) (free st)\<rparr>) = Inr st'"
        by (simp add: Let_def)
      show ?thesis
      proof (rule Cons.IH[OF run dist])
        show "free (st\<lparr>free := insert (tileId t) (free st)\<rparr>) \<inter>
              dom (reasonById (st\<lparr>free := insert (tileId t) (free st)\<rparr>)) = {}"
          using Cons.prems(3) notR by auto
        show "\<forall>u\<in>set ts. tileId u \<notin> free (st\<lparr>free := insert (tileId t) (free st)\<rparr>) \<and>
               (tileId u \<in> dom (reasonById (st\<lparr>free := insert (tileId t) (free st)\<rparr>)) \<longrightarrow>
                tileId u \<in> bT \<union> bS)"
          using Cons.prems(4) fresh by auto
      qed
    next
      case F2: False
      with False fl Cons.prems
      have run: "lateralPass m sl sg bT bS ts
              (st\<lparr>reasonById := (reasonById st)(tileId t \<mapsto> ''blocked:lateral'')\<rparr>) = Inr st'"
        by (simp add: Let_def)
      show ?thesis
      proof (rule Cons.IH[OF run dist])
        show "free (st\<lparr>reasonById := (reasonById st)(tileId t \<mapsto> ''blocked:lateral'')\<rparr>) \<inter>
              dom (reasonById (st\<lparr>reasonById := (reasonById st)(tileId t \<mapsto> ''blocked:lateral'')\<rparr>)) = {}"
          using Cons.prems(3) notF by auto
        show "\<forall>u\<in>set ts. tileId u \<notin> free (st\<lparr>reasonById := (reasonById st)(tileId t \<mapsto> ''blocked:lateral'')\<rparr>) \<and>
               (tileId u \<in> dom (reasonById (st\<lparr>reasonById := (reasonById st)(tileId t \<mapsto> ''blocked:lateral'')\<rparr>)) \<longrightarrow>
                tileId u \<in> bT \<union> bS)"
          using Cons.prems(4) fresh by auto
      qed
    qed
  qed
qed

lemma lateralPass_reason:
  "lateralPass m sl sg bT bS ts st = Inr st' \<Longrightarrow> reasonById st' k = Some w \<Longrightarrow>
   reasonById st k = Some w \<or> (w = ''blocked:lateral'' \<and> k \<notin> bT \<union> bS)"
proof (induction ts arbitrary: st)
  case Nil then show ?case by simp
next
  case (Cons t ts)
  show ?case
  proof (cases "tileId t \<in> bT \<or> tileId t \<in> bS")
    case True
    with Cons show ?thesis by simp
  next
    case False
    with Cons.prems obtain hl hr where
      fl: "lateralScan m sg t (layerOf sl t) False False = Inr (hl, hr)"
      by (auto simp: Let_def split: sum.splits)
    show ?thesis
    proof (cases "\<not> hl \<or> \<not> hr")
      case True
      with False fl Cons.prems
      have "lateralPass m sl sg bT bS ts (st\<lparr>free := insert (tileId t) (free st)\<rparr>) = Inr st'"
        by (simp add: Let_def)
      from Cons.IH[OF this Cons.prems(2)] show ?thesis by auto
    next
      case F2: False
      with False fl Cons.prems
      have "lateralPass m sl sg bT bS ts
              (st\<lparr>reasonById := (reasonById st)(tileId t \<mapsto> ''blocked:lateral'')\<rparr>) = Inr st'"
        by (simp add: Let_def)
      from Cons.IH[OF this Cons.prems(2)] False show ?thesis by (auto split: if_splits)
    qed
  qed
qed

lemma computeTileStatus_total_run:
  "\<exists>bT bS R st.
     overlapPass (buildRectById ts tileW tileH zx zy Map.empty) ts ts ({}, {}, Map.empty) = Inr (bT, bS, R) \<and>
     lateralPass (buildRectById ts tileW tileH zx zy Map.empty) (groupByLayer ts Map.empty)
       (tileW * sgf) bT bS ts \<lparr> free = {}, reasonById = R \<rparr> = Inr st \<and>
     computeTileStatus ts tileW tileH zx zy sgf = Inr st"
proof -
  define m where "m = buildRectById ts tileW tileH zx zy Map.empty"
  define sl where "sl = groupByLayer ts Map.empty"
  have mdef: "\<forall>t \<in> set ts. m (tileId t) \<noteq> None"
    unfolding m_def using buildRectById_defined by blast
  then have "\<forall>t \<in> set ts. \<exists>w. overlapScan m t ts = Inr w"
    by (auto intro: overlapScan_total)
  then obtain res where "overlapPass m ts ts ({}, {}, Map.empty) = Inr res"
    using overlapPass_total by blast
  then obtain bT bS R where p1: "overlapPass m ts ts ({}, {}, Map.empty) = Inr (bT, bS, R)"
    by (cases res) auto
  have domR: "dom R = bT \<union> bS"
    using overlapPass_dom[OF p1] by simp
  have layer: "\<And>t. layerOf sl t = filter (\<lambda>u. tile_z u = tile_z t) ts"
    unfolding sl_def by (rule layerTiles_eq)
  have "\<forall>t \<in> set ts. \<exists>fl. lateralScan m (tileW * sgf) t (layerOf sl t) False False = Inr fl"
  proof
    fix t assume t: "t \<in> set ts"
    have "\<forall>u \<in> set (filter (\<lambda>u. tile_z u = tile_z t) ts). m (tileId u) \<noteq> None"
      using mdef by simp
    with t mdef show "\<exists>fl. lateralScan m (tileW * sgf) t (layerOf sl t) False False = Inr fl"
      unfolding layer by (intro lateralScan_total) blast+
  qed
  then obtain st where p2:
    "lateralPass m sl (tileW * sgf) bT bS ts \<lparr> free = {}, reasonById = R \<rparr> = Inr st"
    using lateralPass_total by blast
  have run: "computeTileStatus ts tileW tileH zx zy sgf = Inr st"
    using p1 p2 by (simp add: computeTileStatus_def m_def sl_def)
  from p1 p2 run show ?thesis unfolding m_def sl_def by blast
qed

text \<open>
  Claim C2. For every list of live tiles and all tile dimensions, \<open>computeTileStatus\<close>
  returns a status in which a tile with the reason \<open>blocked:overlap-above\<close> or
  \<open>blocked:overlap-same\<close> is not in the free set, and every live tile is in the free set
  or has a reason. When the tile ids are pairwise distinct, the free set and the domain of
  the reason map are disjoint, so the output partitions the input.
\<close>

theorem computeTileStatus_partition:
  "\<exists>st. computeTileStatus ts tileW tileH zx zy sgf = Inr st \<and>
     (\<forall>k w. reasonById st k = Some w \<and> w \<noteq> ''blocked:lateral'' \<longrightarrow> k \<notin> free st) \<and>
     (\<forall>t \<in> set ts. tileId t \<in> free st \<or> reasonById st (tileId t) \<noteq> None) \<and>
     (distinct (map tileId ts) \<longrightarrow> free st \<inter> dom (reasonById st) = {})"
proof -
  define m where "m = buildRectById ts tileW tileH zx zy Map.empty"
  define sl where "sl = groupByLayer ts Map.empty"
  from computeTileStatus_total_run[of ts tileW tileH zx zy sgf]
  obtain bT bS R st where p1: "overlapPass m ts ts ({}, {}, Map.empty) = Inr (bT, bS, R)"
    and p2: "lateralPass m sl (tileW * sgf) bT bS ts \<lparr> free = {}, reasonById = R \<rparr> = Inr st"
    and run: "computeTileStatus ts tileW tileH zx zy sgf = Inr st"
    unfolding m_def sl_def by blast
  have domR: "dom R = bT \<union> bS"
    using overlapPass_dom[OF p1] by simp
  have a: "\<forall>k w. reasonById st k = Some w \<and> w \<noteq> ''blocked:lateral'' \<longrightarrow> k \<notin> free st"
  proof (intro allI impI)
    fix k w assume kw: "reasonById st k = Some w \<and> w \<noteq> ''blocked:lateral''"
    with lateralPass_reason[OF p2, of k w] have "R k = Some w" by simp
    then have "k \<in> bT \<union> bS" using domR by auto
    with lateralPass_free_unblocked[OF p2, of k] show "k \<notin> free st" by auto
  qed
  have b: "\<forall>t \<in> set ts. tileId t \<in> free st \<or> reasonById st (tileId t) \<noteq> None"
  proof
    fix t assume t: "t \<in> set ts"
    from lateralPass_mono[OF p2] have "bT \<union> bS \<subseteq> dom (reasonById st)" using domR by simp
    with lateralPass_cover[OF p2 t] show "tileId t \<in> free st \<or> reasonById st (tileId t) \<noteq> None"
      by auto
  qed
  have c: "distinct (map tileId ts) \<longrightarrow> free st \<inter> dom (reasonById st) = {}"
  proof
    assume d: "distinct (map tileId ts)"
    show "free st \<inter> dom (reasonById st) = {}"
      by (rule lateralPass_disjoint[OF p2 d]) (simp_all add: domR)
  qed
  from run a b c show ?thesis by blast
qed

lemma stacked_eval: "computeTileStatus stackedBoard 72 84 5.76 5.88 0.18 =
    Inr \<lparr>free = {''t1''}, reasonById = [''t0'' \<mapsto> ''blocked:overlap-above'']\<rparr>"
  by (simp add: computeTileStatus_def stackedBoard_def mkTile_def tileRectBase_def Math_round_def
      rectsOverlapAny_def verticalOverlap_def Let_def round_def)

lemma row_eval: "computeTileStatus rowBoard 72 84 5.76 5.88 0.18 =
    Inr \<lparr>free = {''t2'', ''t0''}, reasonById = [''t1'' \<mapsto> ''blocked:lateral'']\<rparr>"
  by (simp add: computeTileStatus_def rowBoard_def mkTile_def tileRectBase_def Math_round_def
      rectsOverlapAny_def verticalOverlap_def Let_def round_def)

theorem computeTileStatus_partition_witness:
  "\<exists>st. computeTileStatus stackedBoard 72 84 5.76 5.88 0.18 = Inr st \<and>
     reasonById st ''t0'' = Some ''blocked:overlap-above'' \<and> ''t0'' \<notin> free st \<and>
     ''t1'' \<in> free st \<and> distinct (map tileId stackedBoard) \<and>
     free st \<inter> dom (reasonById st) = {}"
proof -
  have d: "distinct (map tileId stackedBoard)"
    by (simp add: stackedBoard_def mkTile_def)
  from computeTileStatus_partition[of stackedBoard 72 84 "5.76" "5.88" "0.18"]
  show ?thesis unfolding stacked_eval using d by simp
qed

text \<open>
  Claim C3 as stated fails. In \<open>stackedBoard\<close> the tile \<open>t0\<close> has no other tile in its
  layer at all, and is blocked by the tile above it. In \<open>rowBoard\<close> no tile overlaps the
  rectangle of \<open>t1\<close>, and \<open>t1\<close> is blocked by its two lateral neighbours.
\<close>

theorem isolated_tile_not_always_free:
  "(\<exists>st. computeTileStatus stackedBoard 72 84 5.76 5.88 0.18 = Inr st \<and>
      (\<forall>u \<in> set stackedBoard. tileId u \<noteq> ''t0'' \<longrightarrow> tile_z u \<noteq> 0) \<and> ''t0'' \<notin> free st) \<and>
   (\<exists>st. computeTileStatus rowBoard 72 84 5.76 5.88 0.18 = Inr st \<and>
      (\<forall>u \<in> set rowBoard. tileId u \<noteq> ''t1'' \<longrightarrow>
         \<not> rectsOverlapAny (tileRectBase (rowBoard ! 1) 72 84 5.76 5.88) (tileRectBase u 72 84 5.76 5.88)) \<and>
      ''t1'' \<notin> free st)"
  unfolding stacked_eval row_eval
  by (simp add: stackedBoard_def rowBoard_def mkTile_def tileRectBase_def Math_round_def
        rectsOverlapAny_def Let_def round_def)

text \<open>
  Claim C3, amended. For tiles with pairwise distinct ids, a live tile whose rectangle is
  overlapped by no other tile of its own or a higher layer, and which has no other tile of
  its layer with a vertical overlap (so that no tile can be its lateral neighbour), is in
  the free set, whatever the value of \<open>sideGapFactor\<close>.
\<close>

theorem unobstructed_tile_free:
  assumes dist: "distinct (map tileId ts)"
    and t: "t \<in> set ts"
    and above: "\<forall>u \<in> set ts. tileId u \<noteq> tileId t \<and> tile_z t \<le> tile_z u \<longrightarrow>
        \<not> rectsOverlapAny (tileRectBase t tileW tileH zx zy) (tileRectBase u tileW tileH zx zy)"
    and beside: "\<forall>u \<in> set ts. tileId u \<noteq> tileId t \<and> tile_z u = tile_z t \<longrightarrow>
        \<not> verticalOverlap (tileRectBase t tileW tileH zx zy) (tileRectBase u tileW tileH zx zy)"
  shows "\<exists>st. computeTileStatus ts tileW tileH zx zy sgf = Inr st \<and> tileId t \<in> free st"
proof -
  define m where "m = buildRectById ts tileW tileH zx zy Map.empty"
  define sl where "sl = groupByLayer ts Map.empty"
  have mrect: "\<And>u. u \<in> set ts \<Longrightarrow> m (tileId u) = Some (tileRectBase u tileW tileH zx zy)"
    unfolding m_def using dist by (rule buildRectById_distinct)
  from computeTileStatus_total_run[of ts tileW tileH zx zy sgf]
  obtain bT bS R st where p1: "overlapPass m ts ts ({}, {}, Map.empty) = Inr (bT, bS, R)"
    and p2: "lateralPass m sl (tileW * sgf) bT bS ts \<lparr> free = {}, reasonById = R \<rparr> = Inr st"
    and run: "computeTileStatus ts tileW tileH zx zy sgf = Inr st"
    unfolding m_def sl_def by blast
  have scan: "overlapScan m t ts = Inr None"
  proof (rule overlapScan_clear[of m t "tileRectBase t tileW tileH zx zy", OF mrect[OF t]])
    show "\<forall>u\<in>set ts. tileId u \<noteq> tileId t \<longrightarrow>
          (\<exists>ro. m (tileId u) = Some ro \<and>
            (rectsOverlapAny (tileRectBase t tileW tileH zx zy) ro \<longrightarrow> tile_z u < tile_z t))"
      using above mrect by force
  qed
  have uniq: "\<forall>t' \<in> set ts. tileId t' = tileId t \<longrightarrow> t' = t"
    using dist t by (meson distinct_map inj_onD)
  have unblocked: "tileId t \<notin> bT \<union> bS"
    by (rule overlapPass_unblocked[OF p1]) (use uniq scan in auto)
  have layer: "layerOf sl t = filter (\<lambda>u. tile_z u = tile_z t) ts"
    unfolding sl_def by (rule layerTiles_eq)
  have lat: "lateralScan m (tileW * sgf) t (layerOf sl t) False False = Inr (False, False)"
    unfolding layer
  proof (rule lateralScan_clear[of m t "tileRectBase t tileW tileH zx zy", OF mrect[OF t]])
    show "\<forall>u\<in>set (filter (\<lambda>u. tile_z u = tile_z t) ts). tileId u \<noteq> tileId t \<longrightarrow>
          (\<exists>ro. m (tileId u) = Some ro \<and> \<not> verticalOverlap (tileRectBase t tileW tileH zx zy) ro)"
      using beside mrect by force
  qed
  have "tileId t \<in> free st"
    by (rule lateralPass_free_in[OF p2 t unblocked lat]) simp
  with run show ?thesis by blast
qed

theorem unobstructed_tile_free_witness:
  "distinct (map tileId spreadBoard) \<and> spreadBoard ! 0 \<in> set spreadBoard \<and>
   (\<exists>u \<in> set spreadBoard. tileId u \<noteq> ''t0'' \<and> tile_z u = 0) \<and>
   (\<exists>u \<in> set spreadBoard. tileId u \<noteq> ''t0'' \<and> tile_z u > 0) \<and>
   (\<exists>st. computeTileStatus spreadBoard 72 84 5.76 5.88 0.18 = Inr st \<and> ''t0'' \<in> free st)"
proof -
  have d: "distinct (map tileId spreadBoard)" and t: "spreadBoard ! 0 \<in> set spreadBoard"
    and i: "tileId (spreadBoard ! 0) = ''t0''"
    and o: "\<exists>u \<in> set spreadBoard. tileId u \<noteq> ''t0'' \<and> tile_z u = 0"
      "\<exists>u \<in> set spreadBoard. tileId u \<noteq> ''t0'' \<and> tile_z u > 0"
    by (simp_all add: spreadBoard_def mkTile_def)
  have a: "\<forall>u \<in> set spreadBoard. tileId u \<noteq> tileId (spreadBoard ! 0) \<and>
        tile_z (spreadBoard ! 0) \<le> tile_z u \<longrightarrow>
        \<not> rectsOverlapAny (tileRectBase (spreadBoard ! 0) 72 84 5.76 5.88) (tileRectBase u 72 84 5.76 5.88)"
    by (simp add: spreadBoard_def mkTile_def tileRectBase_def Math_round_def
        rectsOverlapAny_def Let_def round_def)
  have b: "\<forall>u \<in> set spreadBoard. tileId u \<noteq> tileId (spreadBoard ! 0) \<and>
        tile_z u = tile_z (spreadBoard ! 0) \<longrightarrow>
        \<not> verticalOverlap (tileRectBase (spreadBoard ! 0) 72 84 5.76 5.88) (tileRectBase u 72 84 5.76 5.88)"
    by (simp add: spreadBoard_def mkTile_def tileRectBase_def Math_round_def
        verticalOverlap_def Let_def round_def)
  from unobstructed_tile_free[OF d t a b, of "0.18"] d t i o show ?thesis by simp
qed

section \<open>Properties of the tray\<close>

lemma countLetters_fold:
  "countLetters tr acc = fold countsAdd (pendingLetters tr) acc"
  by (induction tr arbitrary: acc) (auto simp: pendingLetters_def)

lemma firstOcc_snoc: "firstOcc (P @ [x]) = (if x \<in> set P then firstOcc P else firstOcc P @ [x])"
  by (simp add: firstOcc_def)

lemma remdups_snoc: "remdups (ys @ [x]) = filter (\<lambda>y. y \<noteq> x) (remdups ys) @ [x]"
  by (induction ys) auto

lemma firstOcc_Cons: "firstOcc (x # xs) = x # filter (\<lambda>y. y \<noteq> x) (firstOcc xs)"
  by (simp add: firstOcc_def remdups_snoc rev_filter)

lemma set_firstOcc [simp]: "set (firstOcc P) = set P"
  by (simp add: firstOcc_def)

lemma distinct_firstOcc [simp]: "distinct (firstOcc P)"
  by (simp add: firstOcc_def)

lemma countsAdd_map:
  "distinct ks \<Longrightarrow>
   countsAdd x (map (\<lambda>l. (l, f l)) ks) =
     (if x \<in> set ks then map (\<lambda>l. (l, if l = x then f l + 1 else f l)) ks
      else map (\<lambda>l. (l, f l)) ks @ [(x, 1)])"
  by (induction ks) auto

lemma fold_countsAdd:
  "fold countsAdd P [] = map (\<lambda>l. (l, count_list P l)) (firstOcc P)"
proof (induction P rule: rev_induct)
  case Nil then show ?case by (simp add: firstOcc_def)
next
  case (snoc x P)
  show ?case
    by (auto simp: snoc countsAdd_map firstOcc_snoc count_list_0_iff)
qed

lemma firstDup_in: "firstDup xs = Some l \<Longrightarrow> l \<in> set xs"
  by (induction xs) (auto split: if_splits)

lemma firstDup_twice: "firstDup xs = Some l \<Longrightarrow> 2 \<le> count_list xs l"
proof (induction xs)
  case Nil then show ?case by simp
next
  case (Cons x xs)
  show ?case
  proof (cases "x \<in> set xs")
    case True
    then have "count_list xs x \<noteq> 0" by (simp add: count_list_0_iff)
    with True Cons.prems show ?thesis by auto
  next
    case False
    with Cons show ?thesis by auto
  qed
qed

lemma firstDup_None: "firstDup xs = None \<longleftrightarrow> distinct xs"
  by (induction xs) auto

lemma firstDup_prefix:
  "firstDup (P1 @ P2) = Some l \<Longrightarrow> l \<notin> set P1 \<Longrightarrow> distinct P1 \<and> set P1 \<inter> set P2 = {}"
  by (induction P1) (auto split: if_splits)

lemma count_list_distinct: "distinct xs \<Longrightarrow> x \<in> set xs \<Longrightarrow> count_list xs x = 1"
  by (induction xs) auto

lemma find_heavy:
  "find (\<lambda>(l, n). n \<ge> 2) (map (\<lambda>l. (l, count_list P l)) (firstOcc P)) =
   map_option (\<lambda>l. (l, count_list P l)) (firstDup P)"
proof (induction P)
  case Nil then show ?case by (simp add: firstOcc_def)
next
  case (Cons x xs)
  show ?case
  proof (cases "x \<in> set xs")
    case True
    then have "count_list xs x \<noteq> 0" by (simp add: count_list_0_iff)
    then show ?thesis using True by (simp add: firstOcc_Cons)
  next
    case False
    then have f: "filter (\<lambda>y. y \<noteq> x) (firstOcc xs) = firstOcc xs"
      by (auto simp: filter_id_conv)
    have m: "map (\<lambda>l. (l, count_list (x # xs) l)) (firstOcc xs) = map (\<lambda>l. (l, count_list xs l)) (firstOcc xs)"
      by (rule map_cong) (use False in auto)
    have o: "map_option (\<lambda>l. (l, count_list (x # xs) l)) (firstDup xs) = map_option (\<lambda>l. (l, count_list xs l)) (firstDup xs)"
      using False firstDup_in[of xs] by (cases "firstDup xs") auto
    have c: "count_list (x # xs) x = 1" using False by simp
    have "find (\<lambda>(l, n). n \<ge> 2) (map (\<lambda>l. (l, count_list (x # xs) l)) (firstOcc (x # xs))) =
          find (\<lambda>(l, n). n \<ge> 2) ((x, count_list (x # xs) x) # map (\<lambda>l. (l, count_list (x # xs) l)) (firstOcc xs))"
      by (simp only: firstOcc_Cons f list.map)
    also have "\<dots> = find (\<lambda>(l, n). n \<ge> 2) (map (\<lambda>l. (l, count_list xs l)) (firstOcc xs))"
      by (simp only: m c) simp
    also have "\<dots> = map_option (\<lambda>l. (l, count_list xs l)) (firstDup xs)" by (rule Cons.IH)
    also have "\<dots> = map_option (\<lambda>l. (l, count_list (x # xs) l)) (firstDup (x # xs))"
      using False by (simp only: o[symmetric]) simp
    finally show ?thesis .
  qed
qed

lemma collectIds_take:
  "length ids < 2 \<Longrightarrow>
   collectIds l tr ids =
     ids @ take (2 - length ids) (map trayId (filter (\<lambda>e. entry_letterId e = l \<and> \<not> matchedOut e) tr))"
proof (induction tr arbitrary: ids)
  case Nil then show ?case by simp
next
  case (Cons e tr)
  show ?case
  proof (cases "entry_letterId e = l \<and> \<not> matchedOut e")
    case False
    with Cons show ?thesis by auto
  next
    case True
    show ?thesis
    proof (cases ids)
      case Nil
      with True Cons.IH[of "[trayId e]"] show ?thesis by (simp add: Let_def)
    next
      case (Cons a as)
      with Cons.prems have "as = []" by simp
      with Cons True show ?thesis by (simp add: Let_def)
    qed
  qed
qed

lemma markMatched_none:
  "\<forall>e \<in> set tr. trayId e \<notin> set ids \<Longrightarrow> markMatched now c ids tr = tr"
  by (induction tr) auto

lemma markMatched_append:
  "\<forall>e \<in> set A. trayId e \<notin> set ids \<Longrightarrow>
   markMatched now c ids (A @ tr) = A @ markMatched now c ids tr"
  by (induction A) auto

lemma markMatched_pair:
  assumes "distinct (map trayId (A @ a # B @ b # C))"
  shows "markMatched now c [trayId a, trayId b] (A @ a # B @ b # C) =
         A @ marked a (now c) # B @ marked b (now (Suc c)) # C"
proof -
  let ?ids = "[trayId a, trayId b]"
  from assms have A: "\<forall>e \<in> set A. trayId e \<notin> set ?ids"
    and B: "\<forall>e \<in> set B. trayId e \<notin> set ?ids"
    and C: "\<forall>e \<in> set C. trayId e \<notin> set ?ids"
    by (auto simp: image_iff)
  show ?thesis
    by (simp add: markMatched_append[OF A] markMatched_append[OF B] markMatched_none[OF C])
qed

lemma pending_split:
  assumes "2 \<le> count_list (pendingLetters tr) l"
  shows "\<exists>A a B b C. tr = A @ a # B @ b # C \<and>
       \<not> matchedOut a \<and> \<not> matchedOut b \<and> entry_letterId a = l \<and> entry_letterId b = l \<and>
       (\<forall>e \<in> set A \<union> set B. \<not> matchedOut e \<longrightarrow> entry_letterId e \<noteq> l)"
proof -
  let ?P = "\<lambda>e. entry_letterId e = l \<and> \<not> matchedOut e"
  have cnt: "\<And>xs. count_list (pendingLetters xs) l = length (filter ?P xs)"
    subgoal for xs by (induction xs) (auto simp: pendingLetters_def)
    done
  from assms have "filter ?P tr \<noteq> []" by (auto simp: cnt)
  then have "\<exists>e \<in> set tr. ?P e" by (auto simp: filter_empty_conv)
  then obtain A a R where s1: "tr = A @ a # R" and a: "?P a" and nA: "\<forall>e \<in> set A. \<not> ?P e"
    using split_list_first_prop[of tr ?P] by auto
  from nA have "filter ?P A = []" by (auto simp: filter_empty_conv)
  with assms s1 a have "1 \<le> length (filter ?P R)" by (simp add: cnt)
  then have "\<exists>e \<in> set R. ?P e"
    by (metis (mono_tags, lifting) filter_False length_0_conv not_one_le_zero)
  then obtain B b C where s2: "R = B @ b # C" and b: "?P b" and nB: "\<forall>e \<in> set B. \<not> ?P e"
    using split_list_first_prop[of R ?P] by auto
  from s1 s2 a b nA nB show ?thesis by (intro exI[of _ A] exI[of _ a] exI[of _ B] exI[of _ b] exI[of _ C]) auto
qed

lemma resolveFirst_find:
  "resolveFirst now c tr cs =
     (case find (\<lambda>(l, n). n \<ge> 2) cs of
        None \<Rightarrow> (tr, [])
      | Some (l, n) \<Rightarrow>
          (let ids = collectIds l tr []
           in if length ids < 2 then (tr, [])
              else (markMatched now c ids tr, [(TRAY_MATCH_MS, ClearTray ids)])))"
  by (induction cs) (auto simp: Let_def)

lemma tryRemovePairInTray_firstDup:
  "tryRemovePairInTray now c tr =
     (case firstDup (pendingLetters tr) of
        None \<Rightarrow> (tr, [])
      | Some l \<Rightarrow>
          (let ids = collectIds l tr []
           in if length ids < 2 then (tr, [])
              else (markMatched now c ids tr, [(TRAY_MATCH_MS, ClearTray ids)])))"
  by (simp add: tryRemovePairInTray_def resolveFirst_find countLetters_fold fold_countsAdd find_heavy
      split: option.splits)

text \<open>
  Claim C4. A tray whose pending (not matched out) entries carry pairwise distinct symbols
  is returned unchanged, whatever the matched-out entries carry: they are not counted.
  Otherwise, for a tray with pairwise distinct tray ids, the tray splits as
  \<open>A @ a # B @ b # C\<close> where \<open>a\<close> and \<open>b\<close> are pending and carry the same symbol, no
  pending entry of \<open>A\<close> or \<open>B\<close> carries it, and the symbol of every pending entry of \<open>A\<close>
  occurs once among the pending entries (so the symbol of \<open>a\<close> is the first duplicated
  one); one call marks \<open>a\<close> and \<open>b\<close>, leaves every other entry as it is, in particular a
  third entry of the same symbol in \<open>C\<close>, and schedules the removal of \<open>a\<close> and \<open>b\<close>.
\<close>

theorem tryRemovePairInTray_first_pair:
  "(distinct (pendingLetters tr) \<longrightarrow> tryRemovePairInTray now c tr = (tr, [])) \<and>
   (distinct (map trayId tr) \<and> \<not> distinct (pendingLetters tr) \<longrightarrow>
     (\<exists>A a B b C. tr = A @ a # B @ b # C \<and>
        \<not> matchedOut a \<and> \<not> matchedOut b \<and> entry_letterId a = entry_letterId b \<and>
        (\<forall>e \<in> set A \<union> set B. \<not> matchedOut e \<longrightarrow> entry_letterId e \<noteq> entry_letterId a) \<and>
        (\<forall>e \<in> set A. \<not> matchedOut e \<longrightarrow> count_list (pendingLetters tr) (entry_letterId e) = 1) \<and>
        tryRemovePairInTray now c tr =
          (A @ a\<lparr>matchedOut := True, glowUntil := now c + TRAY_MATCH_MS\<rparr> # B @
             b\<lparr>matchedOut := True, glowUntil := now (Suc c) + TRAY_MATCH_MS\<rparr> # C,
           [(TRAY_MATCH_MS, ClearTray [trayId a, trayId b])])))"
proof (intro conjI impI)
  assume "distinct (pendingLetters tr)"
  then have "firstDup (pendingLetters tr) = None" by (simp add: firstDup_None)
  then show "tryRemovePairInTray now c tr = (tr, [])"
    by (simp add: tryRemovePairInTray_firstDup)
next
  assume h: "distinct (map trayId tr) \<and> \<not> distinct (pendingLetters tr)"
  then obtain l where l: "firstDup (pendingLetters tr) = Some l"
    using firstDup_None[of "pendingLetters tr"] by auto
  from pending_split[OF firstDup_twice[OF l]]
  obtain A a B b C where tr: "tr = A @ a # B @ b # C"
    and a: "\<not> matchedOut a" "entry_letterId a = l" and b: "\<not> matchedOut b" "entry_letterId b = l"
    and nAB: "\<forall>e \<in> set A \<union> set B. \<not> matchedOut e \<longrightarrow> entry_letterId e \<noteq> l"
    by blast
  let ?P = "\<lambda>e. entry_letterId e = l \<and> \<not> matchedOut e"
  have fA: "filter ?P A = []" and fB: "filter ?P B = []"
    using nAB by (auto simp: filter_empty_conv)
  have ids: "collectIds l tr [] = [trayId a, trayId b]"
    using a b by (simp add: collectIds_take tr fA fB)
  have pl: "pendingLetters tr = pendingLetters A @ (l # pendingLetters (B @ b # C))"
    using a by (simp add: pendingLetters_def tr)
  have lA: "l \<notin> set (pendingLetters A)"
    using nAB by (auto simp: pendingLetters_def)
  from firstDup_prefix[OF l[unfolded pl] lA]
  have dA: "distinct (pendingLetters A)"
    and iA: "set (pendingLetters A) \<inter> set (l # pendingLetters (B @ b # C)) = {}" by auto
  have once: "\<forall>e \<in> set A. \<not> matchedOut e \<longrightarrow> count_list (pendingLetters tr) (entry_letterId e) = 1"
  proof (intro ballI impI)
    fix e assume e: "e \<in> set A" "\<not> matchedOut e"
    then have inA: "entry_letterId e \<in> set (pendingLetters A)" by (auto simp: pendingLetters_def)
    with dA have "count_list (pendingLetters A) (entry_letterId e) = 1"
      by (simp add: count_list_distinct)
    moreover from inA iA have "count_list (l # pendingLetters (B @ b # C)) (entry_letterId e) = 0"
      by (metis count_list_0_iff disjoint_iff)
    ultimately show "count_list (pendingLetters tr) (entry_letterId e) = 1"
      unfolding pl by (simp only: count_list_append)
  qed
  have res: "tryRemovePairInTray now c tr =
          (A @ a\<lparr>matchedOut := True, glowUntil := now c + TRAY_MATCH_MS\<rparr> # B @
             b\<lparr>matchedOut := True, glowUntil := now (Suc c) + TRAY_MATCH_MS\<rparr> # C,
           [(TRAY_MATCH_MS, ClearTray [trayId a, trayId b])])"
    using h markMatched_pair[of A a B b C now c]
    by (simp add: tryRemovePairInTray_firstDup l ids Let_def tr[symmetric])
  from tr a b nAB once res show "\<exists>A a B b C. tr = A @ a # B @ b # C \<and>
        \<not> matchedOut a \<and> \<not> matchedOut b \<and> entry_letterId a = entry_letterId b \<and>
        (\<forall>e \<in> set A \<union> set B. \<not> matchedOut e \<longrightarrow> entry_letterId e \<noteq> entry_letterId a) \<and>
        (\<forall>e \<in> set A. \<not> matchedOut e \<longrightarrow> count_list (pendingLetters tr) (entry_letterId e) = 1) \<and>
        tryRemovePairInTray now c tr =
          (A @ a\<lparr>matchedOut := True, glowUntil := now c + TRAY_MATCH_MS\<rparr> # B @
             b\<lparr>matchedOut := True, glowUntil := now (Suc c) + TRAY_MATCH_MS\<rparr> # C,
           [(TRAY_MATCH_MS, ClearTray [trayId a, trayId b])])"
    by (intro exI[of _ A] exI[of _ a] exI[of _ B] exI[of _ b] exI[of _ C]) simp
qed

theorem tryRemovePairInTray_first_pair_witness:
  "distinct (map trayId exampleTray) \<and> \<not> distinct (pendingLetters exampleTray) \<and>
   map matchedOut (fst (tryRemovePairInTray (\<lambda>n. 1000) 2 exampleTray)) = [False, True, True, True, False] \<and>
   (\<exists>A a B b C. exampleTray = A @ a # B @ b # C \<and>
        \<not> matchedOut a \<and> \<not> matchedOut b \<and> entry_letterId a = entry_letterId b \<and>
        (\<forall>e \<in> set A \<union> set B. \<not> matchedOut e \<longrightarrow> entry_letterId e \<noteq> entry_letterId a) \<and>
        (\<forall>e \<in> set A. \<not> matchedOut e \<longrightarrow> count_list (pendingLetters exampleTray) (entry_letterId e) = 1) \<and>
        tryRemovePairInTray (\<lambda>n. 1000) 2 exampleTray =
          (A @ a\<lparr>matchedOut := True, glowUntil := 1000 + TRAY_MATCH_MS\<rparr> # B @
             b\<lparr>matchedOut := True, glowUntil := 1000 + TRAY_MATCH_MS\<rparr> # C,
           [(TRAY_MATCH_MS, ClearTray [trayId a, trayId b])]))"
proof -
  have h: "distinct (map trayId exampleTray) \<and> \<not> distinct (pendingLetters exampleTray)"
    by (simp add: exampleTray_def mkEntry_def pendingLetters_def)
  have e: "map matchedOut (fst (tryRemovePairInTray (\<lambda>n. 1000) 2 exampleTray)) = [False, True, True, True, False]"
    by (simp add: exampleTray_def mkEntry_def tryRemovePairInTray_def Let_def)
  from tryRemovePairInTray_first_pair[of exampleTray "\<lambda>n. 1000" 2] h e show ?thesis by blast
qed


section \<open>Properties of the moves\<close>

lemma pickTile_overflow:
  assumes "gameState g = Playing"
    and "find (\<lambda>x. tileId x = tid) (tiles g) = Some t"
    and "\<not> removed t" and "\<not> animatingOut t"
    and "tid \<in> freeTileIds g"
    and "\<not> covered t"
    and "length (tray g) \<ge> TRAY_LIMIT"
  shows "pickTile env tid g = g\<lparr>gameState := Lose\<rparr>"
  using assms by (simp add: pickTile_def)

text \<open>
  Claim C1. In a game in the playing state, activating a tile that is on the board, free
  and not covered, while the tray holds \<open>TRAY_LIMIT = 4\<close> entries (or more), changes the
  state to lose and nothing else: the tray is the same, no entry is appended.
\<close>

theorem pickTile_full_tray_loses:
  assumes "gameState g = Playing"
    and "find (\<lambda>x. tileId x = tid) (tiles g) = Some t"
    and "\<not> removed t" and "\<not> animatingOut t"
    and "tid \<in> freeTileIds g"
    and "\<not> covered t"
    and "length (tray g) \<ge> 4"
  shows "TRAY_LIMIT = 4 \<and> pickTile env tid g = g\<lparr>gameState := Lose\<rparr> \<and>
         tray (pickTile env tid g) = tray g \<and> gameState (pickTile env tid g) = Lose"
  using pickTile_overflow[of g tid t env] assms by (simp add: TRAY_LIMIT_def)

lemma freeTileIds_fullTrayGame: "freeTileIds fullTrayGame = {''t4''}"
  by (simp add: freeTileIds_def fullTrayGame_def aliveTiles_def mkTile_def computeTileStatus_def
      levelConfigOf_def)

theorem pickTile_full_tray_loses_witness:
  "gameState fullTrayGame = Playing \<and> length (tray fullTrayGame) = 4 \<and>
   pickTile exampleEnv ''t4'' fullTrayGame = fullTrayGame\<lparr>gameState := Lose\<rparr> \<and>
   tray (pickTile exampleEnv ''t4'' fullTrayGame) = fullTray"
proof -
  have a: "gameState fullTrayGame = Playing"
    and b: "find (\<lambda>x. tileId x = ''t4'') (tiles fullTrayGame) = Some (mkTile ''t4'' ''he'' 0 0 0)"
    and c: "\<not> removed (mkTile ''t4'' ''he'' 0 0 0)" "\<not> animatingOut (mkTile ''t4'' ''he'' 0 0 0)"
      "\<not> covered (mkTile ''t4'' ''he'' 0 0 0)"
    and d: "length (tray fullTrayGame) \<ge> 4" "length (tray fullTrayGame) = 4"
    and e: "tray fullTrayGame = fullTray"
    by (simp_all add: fullTrayGame_def mkTile_def fullTray_def)
  have f: "''t4'' \<in> freeTileIds fullTrayGame" by (simp add: freeTileIds_fullTrayGame)
  from pickTile_full_tray_loses[OF a b c(1,2) f c(3) d(1), of exampleEnv] a d(2) e
  show ?thesis by simp
qed


lemma random_index_le: "nat \<lfloor>Rep_unitReal r * real (Suc i)\<rfloor> \<le> i"
proof -
  have r: "0 \<le> Rep_unitReal r" "Rep_unitReal r < 1"
    using Rep_unitReal[of r] by auto
  then have "Rep_unitReal r * real (Suc i) < real (Suc i)"
    by (simp add: mult_less_cancel_right2)
  then have "\<lfloor>Rep_unitReal r * real (Suc i)\<rfloor> < int (Suc i)"
    by (simp add: floor_less_iff)
  then show ?thesis by linarith
qed

lemma mset_shuffleFrom:
  "k < length a \<or> k = 0 \<Longrightarrow> mset (fst (shuffleFrom rand c k a)) = mset a"
proof (induction k arbitrary: c a)
  case 0
  show ?case by simp
next
  case (Suc k)
  let ?j = "nat \<lfloor>Rep_unitReal (rand c) * real (Suc k + 1)\<rfloor>"
  from Suc.prems have i: "Suc k < length a" by simp
  have "?j \<le> Suc k" using random_index_le[of "rand c" "Suc k"] by simp
  with i have j: "?j < length a" by simp
  have sw: "mset (a[Suc k := a ! ?j, ?j := a ! Suc k]) = mset a"
    using mset_swap[OF j i] .
  have "k < length (a[Suc k := a ! ?j, ?j := a ! Suc k]) \<or> k = 0" using i by simp
  from Suc.IH[OF this, of "Suc c"] sw show ?case by (simp add: Let_def)
qed

lemma mset_shuffle: "mset (fst (shuffle rand c a)) = mset a"
  unfolding shuffle_def by (rule mset_shuffleFrom) (cases a; simp)

lemma reassign_letters:
  "map letterId (filter (\<lambda>t. \<not> removed t) (reassign mixed k ts)) =
   map (\<lambda>i. mixed ! i) [k ..< k + length (filter (\<lambda>t. \<not> removed t) ts)]"
proof (induction ts arbitrary: k)
  case Nil
  show ?case by simp
next
  case (Cons t ts)
  show ?case
  proof (cases "removed t")
    case True
    with Cons show ?thesis by simp
  next
    case False
    have "[k ..< k + Suc (length (filter (\<lambda>t. \<not> removed t) ts))] =
          k # [Suc k ..< Suc k + length (filter (\<lambda>t. \<not> removed t) ts)]"
      by (simp add: upt_rec)
    with False Cons[of "Suc k"] show ?thesis by simp
  qed
qed

lemma reassign_other_fields:
  "map (\<lambda>t. t\<lparr>letterId := l0\<rparr>) (reassign mixed k ts) = map (\<lambda>t. t\<lparr>letterId := l0\<rparr>) ts"
  by (induction ts arbitrary: k) auto

lemma reassign_length [simp]: "length (reassign mixed k ts) = length ts"
  by (induction ts arbitrary: k) auto

lemma reassign_removed:
  "i < length ts \<Longrightarrow> removed (ts ! i) \<Longrightarrow> reassign mixed k ts ! i = ts ! i"
proof (induction ts arbitrary: k i)
  case Nil
  then show ?case by simp
next
  case (Cons t ts)
  then show ?case by (cases i) auto
qed

text \<open>
  Claim C5. \<open>reshuffle\<close> returns the game unchanged unless the state is playing. When it
  runs, the multiset of the symbols of the tiles that are not removed is the same, every
  tile keeps all its fields but the symbol (position, layer, covered, removed and
  animating flags, in the same order), a removed tile keeps its symbol too, and the tray
  and the state are the same; the snapshot of the game before is pushed on the history.
\<close>

theorem reshuffle_permutes_symbols:
  "(gameState g \<noteq> Playing \<longrightarrow> reshuffle rand g = g) \<and>
   (gameState g = Playing \<longrightarrow>
      mset (map letterId (filter (\<lambda>t. \<not> removed t) (tiles (reshuffle rand g)))) =
        mset (map letterId (filter (\<lambda>t. \<not> removed t) (tiles g))) \<and>
      map (\<lambda>t. t\<lparr>letterId := l0\<rparr>) (tiles (reshuffle rand g)) = map (\<lambda>t. t\<lparr>letterId := l0\<rparr>) (tiles g) \<and>
      (\<forall>i < length (tiles g). removed (tiles g ! i) \<longrightarrow> tiles (reshuffle rand g) ! i = tiles g ! i) \<and>
      tray (reshuffle rand g) = tray g \<and> gameState (reshuffle rand g) = Playing \<and>
      history (reshuffle rand g) = history g @
        [\<lparr> snap_tiles = tiles g, snap_tray = tray g, snap_gameState = Playing \<rparr>])"
proof (intro conjI impI)
  assume "gameState g \<noteq> Playing"
  then show "reshuffle rand g = g" by (simp add: reshuffle_def)
next
  assume p: "gameState g = Playing"
  let ?ids = "map letterId (filter (\<lambda>t. \<not> removed t) (tiles g))"
  let ?mixed = "fst (shuffle rand 0 ?ids)"
  have t: "tiles (reshuffle rand g) = reassign ?mixed 0 (tiles g)"
    using p by (simp add: reshuffle_def pushHistory_def Let_def)
  have len: "length ?mixed = length (filter (\<lambda>t. \<not> removed t) (tiles g))"
    by (simp add: length_shuffle)
  have "map letterId (filter (\<lambda>t. \<not> removed t) (tiles (reshuffle rand g))) =
        map (\<lambda>i. ?mixed ! i) [0 ..< length ?mixed]"
    unfolding t reassign_letters len by simp
  also have "\<dots> = ?mixed" by (rule map_nth)
  finally have "map letterId (filter (\<lambda>t. \<not> removed t) (tiles (reshuffle rand g))) = ?mixed" .
  then show "mset (map letterId (filter (\<lambda>t. \<not> removed t) (tiles (reshuffle rand g)))) = mset ?ids"
    by (simp only: mset_shuffle)
  show "map (\<lambda>t. t\<lparr>letterId := l0\<rparr>) (tiles (reshuffle rand g)) = map (\<lambda>t. t\<lparr>letterId := l0\<rparr>) (tiles g)"
    unfolding t by (rule reassign_other_fields)
  show "\<forall>i < length (tiles g). removed (tiles g ! i) \<longrightarrow> tiles (reshuffle rand g) ! i = tiles g ! i"
    unfolding t by (simp add: reassign_removed)
  show "tray (reshuffle rand g) = tray g" using p by (simp add: reshuffle_def pushHistory_def Let_def)
  show "gameState (reshuffle rand g) = Playing" using p by (simp add: reshuffle_def pushHistory_def Let_def)
  show "history (reshuffle rand g) = history g @
        [\<lparr> snap_tiles = tiles g, snap_tray = tray g, snap_gameState = Playing \<rparr>]"
    using p by (simp add: reshuffle_def pushHistory_def Let_def)
qed

lemma Rep_quarter: "Rep_unitReal (Abs_unitReal (1 / 4)) = 1 / 4"
  by (simp add: Abs_unitReal_inverse)

theorem reshuffle_permutes_symbols_witness:
  "gameState lostGame \<noteq> Playing \<and> reshuffle quarterRandom lostGame = lostGame \<and>
   gameState shuffleGame = Playing \<and>
   map letterId (tiles (reshuffle quarterRandom shuffleGame)) = [''gimel'', ''bet'', ''dalet'', ''alef''] \<and>
   mset (map letterId (filter (\<lambda>t. \<not> removed t) (tiles (reshuffle quarterRandom shuffleGame)))) =
     mset [''alef'', ''gimel'', ''dalet''] \<and>
   map (\<lambda>t. t\<lparr>letterId := []\<rparr>) (tiles (reshuffle quarterRandom shuffleGame)) =
     map (\<lambda>t. t\<lparr>letterId := []\<rparr>) (tiles shuffleGame)"
proof -
  have a: "gameState lostGame \<noteq> Playing" and b: "gameState shuffleGame = Playing"
    by (simp_all add: lostGame_def shuffleGame_def pairGame_def)
  have c: "map letterId (tiles (reshuffle quarterRandom shuffleGame)) = [''gimel'', ''bet'', ''dalet'', ''alef'']"
    by (simp add: reshuffle_def pushHistory_def Let_def shuffleGame_def pairGame_def mkTile_def
        shuffle_def quarterRandom_def Rep_quarter)
  have d: "map letterId (filter (\<lambda>t. \<not> removed t) (tiles shuffleGame)) = [''alef'', ''gimel'', ''dalet'']"
    by (simp add: shuffleGame_def pairGame_def mkTile_def)
  from reshuffle_permutes_symbols[of lostGame quarterRandom "[]"]
    reshuffle_permutes_symbols[of shuffleGame quarterRandom "[]"] a b c
  show ?thesis unfolding d by simp
qed


text \<open>
  The rounding evaluated: for \<open>x\<close> in the binade of \<open>2 powi e\<close>, \<open>binary64 x\<close> is
  \<open>x\<close> rounded to a multiple of \<open>2 powi (e - 52)\<close>.
\<close>

lemma binary64_eval:
  assumes "2 powi e \<le> \<bar>x\<bar>" and "\<bar>x\<bar> < 2 powi (e + 1)" and "- 1022 \<le> e"
  shows "binary64 x = of_int (roundEven (x / 2 powi (e - 52))) * 2 powi (e - 52)"
proof -
  have p: "(0::real) < 2 powi e" by simp
  with assms(1) have x0: "0 < \<bar>x\<bar>" by linarith
  have a: "(2::real) powr real_of_int e = 2 powi e"
    "(2::real) powr real_of_int (e + 1) = 2 powi (e + 1)"
    by (rule powr_real_of_int'; simp)+
  have "(\<lfloor>log 2 \<bar>x\<bar>\<rfloor> = e) =
        (2 powr real_of_int e \<le> \<bar>x\<bar> \<and> \<bar>x\<bar> < 2 powr real_of_int (e + 1))"
    by (rule floor_log_eq_powr_iff) (use x0 in simp_all)
  with assms(1,2) have "\<lfloor>log 2 \<bar>x\<bar>\<rfloor> = e" unfolding a by blast
  with x0 assms(3) show ?thesis by (simp add: binary64_def Let_def max_def)
qed

text \<open>
  The merits of three wins, operation by operation: level 1 in 198 seconds and 44 moves,
  level 3 in 100 seconds and 74 moves, level 3 in 200 seconds and 45 moves.
\<close>

lemma earnedMerits_tie4: "earnedMerits 1 198 44 = 2"
proof -
  have s1: "minus64 1 1 = 0"
    by (simp add: minus64_def binary64_def)
  have s2: "times64 0 15 = 0"
    by (simp add: times64_def binary64_def)
  have s3: "plus64 90 0 = 90"
    unfolding plus64_def by (subst binary64_eval[where e="6"]) (simp_all add: roundEven_def Let_def power_int_minus)
  have s4: "times64 0 3 = 0"
    by (simp add: times64_def binary64_def)
  have s5: "plus64 20 0 = 20"
    unfolding plus64_def by (subst binary64_eval[where e="4"]) (simp_all add: roundEven_def Let_def power_int_minus)
  have s6: "divide64 198 90 = (2476979795053773 / 1125899906842624)"
    unfolding divide64_def by (subst binary64_eval[where e="1"]) (simp_all add: roundEven_def Let_def power_int_minus)
  have s7: "minus64 (2476979795053773 / 1125899906842624) 1 = (1351079888211149 / 1125899906842624)"
    unfolding minus64_def by (subst binary64_eval[where e="0"]) (simp_all add: roundEven_def Let_def power_int_minus)
  have s8: "times64 (1351079888211149 / 1125899906842624) 0.5 = (1351079888211149 / 2251799813685248)"
    unfolding times64_def by (subst binary64_eval[where e="-1"]) (simp_all add: roundEven_def Let_def power_int_minus)
  have s9: "minus64 1 (1351079888211149 / 2251799813685248) = (900719925474099 / 2251799813685248)"
    unfolding minus64_def by (subst binary64_eval[where e="-2"]) (simp_all add: roundEven_def Let_def power_int_minus)
  have s10: "clamp ((900719925474099 / 2251799813685248) :: real) 0 1 = (900719925474099 / 2251799813685248)"
    by (simp add: clamp_def)
  have s11: "divide64 44 20 = (2476979795053773 / 1125899906842624)"
    unfolding divide64_def by (subst binary64_eval[where e="1"]) (simp_all add: roundEven_def Let_def power_int_minus)
  have s12: "binary64 0.35 = (3152519739159347 / 9007199254740992)"
    by (subst binary64_eval[where e="-2"]) (simp_all add: roundEven_def Let_def power_int_minus)
  have s13: "binary64 0.65 = (5854679515581645 / 9007199254740992)"
    by (subst binary64_eval[where e="-1"]) (simp_all add: roundEven_def Let_def power_int_minus)
  have s14: "times64 (900719925474099 / 2251799813685248) (3152519739159347 / 9007199254740992) = (2522015791327477 / 18014398509481984)"
    unfolding times64_def by (subst binary64_eval[where e="-3"]) (simp_all add: roundEven_def Let_def power_int_minus)
  have s15: "times64 (900719925474099 / 2251799813685248) (5854679515581645 / 9007199254740992) = (4683743612465315 / 18014398509481984)"
    unfolding times64_def by (subst binary64_eval[where e="-2"]) (simp_all add: roundEven_def Let_def power_int_minus)
  have s16: "plus64 (2522015791327477 / 18014398509481984) (4683743612465315 / 18014398509481984) = (900719925474099 / 2251799813685248)"
    unfolding plus64_def by (subst binary64_eval[where e="-2"]) (simp_all add: roundEven_def Let_def power_int_minus)
  have s17: "binary64 0.85 = (7656119366529843 / 9007199254740992)"
    by (subst binary64_eval[where e="-1"]) (simp_all add: roundEven_def Let_def power_int_minus)
  have s18: "binary64 0.7 = (3152519739159347 / 4503599627370496)"
    by (subst binary64_eval[where e="-1"]) (simp_all add: roundEven_def Let_def power_int_minus)
  have s19: "binary64 0.55 = (2476979795053773 / 4503599627370496)"
    by (subst binary64_eval[where e="-1"]) (simp_all add: roundEven_def Let_def power_int_minus)
  have s20: "binary64 0.4 = (3602879701896397 / 9007199254740992)"
    by (subst binary64_eval[where e="-2"]) (simp_all add: roundEven_def Let_def power_int_minus)
  have s21: "binary64 0.1 = (3602879701896397 / 36028797018963968)"
    by (subst binary64_eval[where e="-4"]) (simp_all add: roundEven_def Let_def power_int_minus)
  have s22: "times64 0 (3602879701896397 / 36028797018963968) = 0"
    by (simp add: times64_def binary64_def)
  have s23: "plus64 1 0 = 1"
    unfolding plus64_def by (subst binary64_eval[where e="0"]) (simp_all add: roundEven_def Let_def power_int_minus)
  have s24: "times64 2 1 = 2"
    unfolding times64_def by (subst binary64_eval[where e="1"]) (simp_all add: roundEven_def Let_def power_int_minus)
  show ?thesis
    unfolding earnedMerits_def Let_def
    apply (simp only: of_int_numeral of_int_1 of_nat_numeral of_nat_1 s1 s2 s3 s4 s5 s6 s7 s8 s9 s10 s11 s12 s13 s14 s15 s16 s17 s18 s19 s20 s21 s22 s23 s24)
    by (simp add: s24 round_def)
qed

lemma earnedMerits_tie5: "earnedMerits 3 100 74 = 2"
proof -
  have s1: "minus64 3 1 = 2"
    unfolding minus64_def by (subst binary64_eval[where e="1"]) (simp_all add: roundEven_def Let_def power_int_minus)
  have s2: "times64 2 15 = 30"
    unfolding times64_def by (subst binary64_eval[where e="4"]) (simp_all add: roundEven_def Let_def power_int_minus)
  have s3: "plus64 90 30 = 120"
    unfolding plus64_def by (subst binary64_eval[where e="6"]) (simp_all add: roundEven_def Let_def power_int_minus)
  have s4: "times64 2 3 = 6"
    unfolding times64_def by (subst binary64_eval[where e="2"]) (simp_all add: roundEven_def Let_def power_int_minus)
  have s5: "plus64 20 6 = 26"
    unfolding plus64_def by (subst binary64_eval[where e="4"]) (simp_all add: roundEven_def Let_def power_int_minus)
  have s6: "divide64 100 120 = (7505999378950827 / 9007199254740992)"
    unfolding divide64_def by (subst binary64_eval[where e="-1"]) (simp_all add: roundEven_def Let_def power_int_minus)
  have s7: "minus64 (7505999378950827 / 9007199254740992) 1 = (- (1501199875790165 / 9007199254740992))"
    unfolding minus64_def by (subst binary64_eval[where e="-3"]) (simp_all add: roundEven_def Let_def power_int_minus)
  have s8: "times64 (- (1501199875790165 / 9007199254740992)) 0.5 = (- (1501199875790165 / 18014398509481984))"
    unfolding times64_def by (subst binary64_eval[where e="-4"]) (simp_all add: roundEven_def Let_def power_int_minus)
  have s9: "minus64 1 (- (1501199875790165 / 18014398509481984)) = (4878899596318037 / 4503599627370496)"
    unfolding minus64_def by (subst binary64_eval[where e="0"]) (simp_all add: roundEven_def Let_def power_int_minus)
  have s10: "clamp ((4878899596318037 / 4503599627370496) :: real) 0 1 = 1"
    by (simp add: clamp_def)
  have s11: "divide64 74 26 = (6408968700488783 / 2251799813685248)"
    unfolding divide64_def by (subst binary64_eval[where e="1"]) (simp_all add: roundEven_def Let_def power_int_minus)
  have s12: "minus64 (6408968700488783 / 2251799813685248) 1 = (4157168886803535 / 2251799813685248)"
    unfolding minus64_def by (subst binary64_eval[where e="0"]) (simp_all add: roundEven_def Let_def power_int_minus)
  have s13: "times64 (4157168886803535 / 2251799813685248) 0.5 = (4157168886803535 / 4503599627370496)"
    unfolding times64_def by (subst binary64_eval[where e="-1"]) (simp_all add: roundEven_def Let_def power_int_minus)
  have s14: "minus64 1 (4157168886803535 / 4503599627370496) = (346430740566961 / 4503599627370496)"
    unfolding minus64_def by (subst binary64_eval[where e="-4"]) (simp_all add: roundEven_def Let_def power_int_minus)
  have s15: "clamp ((346430740566961 / 4503599627370496) :: real) 0 1 = (346430740566961 / 4503599627370496)"
    by (simp add: clamp_def)
  have s16: "binary64 0.35 = (3152519739159347 / 9007199254740992)"
    by (subst binary64_eval[where e="-2"]) (simp_all add: roundEven_def Let_def power_int_minus)
  have s17: "binary64 0.65 = (5854679515581645 / 9007199254740992)"
    by (subst binary64_eval[where e="-1"]) (simp_all add: roundEven_def Let_def power_int_minus)
  have s18: "times64 1 (3152519739159347 / 9007199254740992) = (3152519739159347 / 9007199254740992)"
    unfolding times64_def by (subst binary64_eval[where e="-2"]) (simp_all add: roundEven_def Let_def power_int_minus)
  have s19: "times64 (346430740566961 / 4503599627370496) (5854679515581645 / 9007199254740992) = (7205759403792789 / 144115188075855872)"
    unfolding times64_def by (subst binary64_eval[where e="-5"]) (simp_all add: roundEven_def Let_def power_int_minus)
  have s20: "plus64 (3152519739159347 / 9007199254740992) (7205759403792789 / 144115188075855872) = (7205759403792793 / 18014398509481984)"
    unfolding plus64_def by (subst binary64_eval[where e="-2"]) (simp_all add: roundEven_def Let_def power_int_minus)
  have s21: "binary64 0.85 = (7656119366529843 / 9007199254740992)"
    by (subst binary64_eval[where e="-1"]) (simp_all add: roundEven_def Let_def power_int_minus)
  have s22: "binary64 0.7 = (3152519739159347 / 4503599627370496)"
    by (subst binary64_eval[where e="-1"]) (simp_all add: roundEven_def Let_def power_int_minus)
  have s23: "binary64 0.55 = (2476979795053773 / 4503599627370496)"
    by (subst binary64_eval[where e="-1"]) (simp_all add: roundEven_def Let_def power_int_minus)
  have s24: "binary64 0.4 = (3602879701896397 / 9007199254740992)"
    by (subst binary64_eval[where e="-2"]) (simp_all add: roundEven_def Let_def power_int_minus)
  have s25: "binary64 0.1 = (3602879701896397 / 36028797018963968)"
    by (subst binary64_eval[where e="-4"]) (simp_all add: roundEven_def Let_def power_int_minus)
  have s26: "times64 2 (3602879701896397 / 36028797018963968) = (3602879701896397 / 18014398509481984)"
    unfolding times64_def by (subst binary64_eval[where e="-3"]) (simp_all add: roundEven_def Let_def power_int_minus)
  have s27: "plus64 1 (3602879701896397 / 18014398509481984) = (5404319552844595 / 4503599627370496)"
    unfolding plus64_def by (subst binary64_eval[where e="0"]) (simp_all add: roundEven_def Let_def power_int_minus)
  have s28: "times64 2 (5404319552844595 / 4503599627370496) = (5404319552844595 / 2251799813685248)"
    unfolding times64_def by (subst binary64_eval[where e="1"]) (simp_all add: roundEven_def Let_def power_int_minus)
  show ?thesis
    unfolding earnedMerits_def Let_def
    apply (simp only: of_int_numeral of_int_1 of_nat_numeral of_nat_1 s1 s2 s3 s4 s5 s6 s7 s8 s9 s10 s11 s12 s13 s14 s15 s16 s17 s18 s19 s20 s21 s22 s23 s24 s25 s26 s27 s28)
    by (simp add: s28 round_def)
qed

lemma earnedMerits_plain: "earnedMerits 3 200 45 = 7"
proof -
  have s1: "minus64 3 1 = 2"
    unfolding minus64_def by (subst binary64_eval[where e="1"]) (simp_all add: roundEven_def Let_def power_int_minus)
  have s2: "times64 2 15 = 30"
    unfolding times64_def by (subst binary64_eval[where e="4"]) (simp_all add: roundEven_def Let_def power_int_minus)
  have s3: "plus64 90 30 = 120"
    unfolding plus64_def by (subst binary64_eval[where e="6"]) (simp_all add: roundEven_def Let_def power_int_minus)
  have s4: "times64 2 3 = 6"
    unfolding times64_def by (subst binary64_eval[where e="2"]) (simp_all add: roundEven_def Let_def power_int_minus)
  have s5: "plus64 20 6 = 26"
    unfolding plus64_def by (subst binary64_eval[where e="4"]) (simp_all add: roundEven_def Let_def power_int_minus)
  have s6: "divide64 200 120 = (7505999378950827 / 4503599627370496)"
    unfolding divide64_def by (subst binary64_eval[where e="0"]) (simp_all add: roundEven_def Let_def power_int_minus)
  have s7: "minus64 (7505999378950827 / 4503599627370496) 1 = (3002399751580331 / 4503599627370496)"
    unfolding minus64_def by (subst binary64_eval[where e="-1"]) (simp_all add: roundEven_def Let_def power_int_minus)
  have s8: "times64 (3002399751580331 / 4503599627370496) 0.5 = (3002399751580331 / 9007199254740992)"
    unfolding times64_def by (subst binary64_eval[where e="-2"]) (simp_all add: roundEven_def Let_def power_int_minus)
  have s9: "minus64 1 (3002399751580331 / 9007199254740992) = (6004799503160661 / 9007199254740992)"
    unfolding minus64_def by (subst binary64_eval[where e="-1"]) (simp_all add: roundEven_def Let_def power_int_minus)
  have s10: "clamp ((6004799503160661 / 9007199254740992) :: real) 0 1 = (6004799503160661 / 9007199254740992)"
    by (simp add: clamp_def)
  have s11: "divide64 45 26 = (1948672915689157 / 1125899906842624)"
    unfolding divide64_def by (subst binary64_eval[where e="0"]) (simp_all add: roundEven_def Let_def power_int_minus)
  have s12: "minus64 (1948672915689157 / 1125899906842624) 1 = (822773008846533 / 1125899906842624)"
    unfolding minus64_def by (subst binary64_eval[where e="-1"]) (simp_all add: roundEven_def Let_def power_int_minus)
  have s13: "times64 (822773008846533 / 1125899906842624) 0.5 = (822773008846533 / 2251799813685248)"
    unfolding times64_def by (subst binary64_eval[where e="-2"]) (simp_all add: roundEven_def Let_def power_int_minus)
  have s14: "minus64 1 (822773008846533 / 2251799813685248) = (1429026804838715 / 2251799813685248)"
    unfolding minus64_def by (subst binary64_eval[where e="-1"]) (simp_all add: roundEven_def Let_def power_int_minus)
  have s15: "clamp ((1429026804838715 / 2251799813685248) :: real) 0 1 = (1429026804838715 / 2251799813685248)"
    by (simp add: clamp_def)
  have s16: "binary64 0.35 = (3152519739159347 / 9007199254740992)"
    by (subst binary64_eval[where e="-2"]) (simp_all add: roundEven_def Let_def power_int_minus)
  have s17: "binary64 0.65 = (5854679515581645 / 9007199254740992)"
    by (subst binary64_eval[where e="-1"]) (simp_all add: roundEven_def Let_def power_int_minus)
  have s18: "times64 (6004799503160661 / 9007199254740992) (3152519739159347 / 9007199254740992) = (8406719304424925 / 36028797018963968)"
    unfolding times64_def by (subst binary64_eval[where e="-3"]) (simp_all add: roundEven_def Let_def power_int_minus)
  have s19: "times64 (1429026804838715 / 2251799813685248) (5854679515581645 / 9007199254740992) = (3715469692580659 / 9007199254740992)"
    unfolding times64_def by (subst binary64_eval[where e="-2"]) (simp_all add: roundEven_def Let_def power_int_minus)
  have s20: "plus64 (8406719304424925 / 36028797018963968) (3715469692580659 / 9007199254740992) = (2908574759343445 / 4503599627370496)"
    unfolding plus64_def by (subst binary64_eval[where e="-1"]) (simp_all add: roundEven_def Let_def power_int_minus)
  have s21: "binary64 0.85 = (7656119366529843 / 9007199254740992)"
    by (subst binary64_eval[where e="-1"]) (simp_all add: roundEven_def Let_def power_int_minus)
  have s22: "binary64 0.7 = (3152519739159347 / 4503599627370496)"
    by (subst binary64_eval[where e="-1"]) (simp_all add: roundEven_def Let_def power_int_minus)
  have s23: "binary64 0.55 = (2476979795053773 / 4503599627370496)"
    by (subst binary64_eval[where e="-1"]) (simp_all add: roundEven_def Let_def power_int_minus)
  have s24: "binary64 0.4 = (3602879701896397 / 9007199254740992)"
    by (subst binary64_eval[where e="-2"]) (simp_all add: roundEven_def Let_def power_int_minus)
  have s25: "binary64 0.1 = (3602879701896397 / 36028797018963968)"
    by (subst binary64_eval[where e="-4"]) (simp_all add: roundEven_def Let_def power_int_minus)
  have s26: "times64 2 (3602879701896397 / 36028797018963968) = (3602879701896397 / 18014398509481984)"
    unfolding times64_def by (subst binary64_eval[where e="-3"]) (simp_all add: roundEven_def Let_def power_int_minus)
  have s27: "plus64 1 (3602879701896397 / 18014398509481984) = (5404319552844595 / 4503599627370496)"
    unfolding plus64_def by (subst binary64_eval[where e="0"]) (simp_all add: roundEven_def Let_def power_int_minus)
  have s28: "times64 6 (5404319552844595 / 4503599627370496) = (2026619832316723 / 281474976710656)"
    unfolding times64_def by (subst binary64_eval[where e="2"]) (simp_all add: roundEven_def Let_def power_int_minus)
  show ?thesis
    unfolding earnedMerits_def Let_def
    apply (simp only: of_int_numeral of_int_1 of_nat_numeral of_nat_1 s1 s2 s3 s4 s5 s6 s7 s8 s9 s10 s11 s12 s13 s14 s15 s16 s17 s18 s19 s20 s21 s22 s23 s24 s25 s26 s27 s28)
    by (simp add: s28 round_def)
qed

lemma spec_score_tie: "spec_score 1 198 44 = 0.40" "spec_score 3 100 74 = 0.40"
  by (simp_all add: spec_score_def spec_subscore_def spec_timeTarget_def spec_moveTarget_def
      Let_def)

lemma spec_merits_eval:
  "spec_merits 1 198 44 = 4" "spec_merits 3 100 74 = 5" "spec_merits 3 200 45 = 7"
  by (simp_all add: spec_merits_def spec_score_def spec_tier_def spec_subscore_def
      spec_timeTarget_def spec_moveTarget_def Let_def round_def)

text \<open>
  Claim C7 fails where the score lies on a tier threshold. A win on level 1 after 198
  seconds and 44 moves has both ratios 2.2, both sub-scores 0.4 and the score 0.40, which
  the claim puts in the tier \<open>[0.40, 0.55)\<close>: 4 merits. The code computes the sub-scores
  and the score in binary64 arithmetic, gets a score just below its threshold \<open>0.4\<close> and
  awards 2 merits, which it records and adds to the total. On level 3 after 100 seconds
  and 74 moves the score is 0.40 again: the claim gives 5 merits, the code 2. Away from
  a threshold (level 3, 200 seconds, 45 moves) both give the same 7 merits.
\<close>

theorem win_merits_miss_tier_threshold:
  "spec_score 1 198 44 = 0.40 \<and> spec_merits 1 198 44 = 4 \<and> earnedMerits 1 198 44 = 2 \<and>
   gameState tieWin = Win \<and> currentLevel tieWin = 1 \<and> elapsedSec tieWin = 198 \<and>
   moveCount tieWin = 44 \<and> totalMerits tieWin = 12 \<and>
   lastMerits (winEffect tieWin) = Some 2 \<and> totalMerits (winEffect tieWin) = 14 \<and>
   spec_score 3 100 74 = 0.40 \<and> spec_merits 3 100 74 = 5 \<and> earnedMerits 3 100 74 = 2 \<and>
   spec_merits 3 200 45 = 7 \<and> earnedMerits 3 200 45 = 7"
proof -
  have g: "gameState tieWin = Win" "currentLevel tieWin = 1" "elapsedSec tieWin = 198"
    "moveCount tieWin = 44" "totalMerits tieWin = 12"
    by (simp_all add: tieWin_def wonGame_def clearedGame_def pairGame_def)
  have w: "lastMerits (winEffect tieWin) = Some 2" "totalMerits (winEffect tieWin) = 14"
    by (simp_all add: winEffect_def Let_def g earnedMerits_tie4)
  from g w spec_score_tie spec_merits_eval earnedMerits_tie4 earnedMerits_tie5 earnedMerits_plain
  show ?thesis by simp
qed

section \<open>Properties of session start\<close>

lemma length_createLayoutPool: "length createLayoutPool = 52"
  by (simp add: createLayoutPool_def)

lemma length_placeFrom [simp]: "length (placeFrom i pad minX minY stepX stepY ps) = length ps"
  by (induction ps arbitrary: i) auto

lemma length_buildLayout:
  "length (buildLayout tw th level n) = (if n < 0 then nat (52 + n) else nat (min n 52))"
proof -
  have "length (buildLayout tw th level n) = length (js_slice0 createLayoutPool (min n 52))"
    by (simp add: buildLayout_def Let_def length_createLayoutPool split: list.splits)
  also have "\<dots> = (if n < 0 then nat (52 + n) else nat (min n 52))"
    by (auto simp: js_slice0_def length_createLayoutPool)
  finally show ?thesis .
qed

lemma length_tilesFrom [simp]: "length (tilesFrom pairIds coverSet idx ps) = length ps"
  by (induction ps arbitrary: idx) auto

lemma set_pushWhile: "set (pushWhile pc chunk base) \<subseteq> set base \<union> set chunk"
proof (induction chunk arbitrary: base)
  case Nil
  show ?case by simp
next
  case (Cons i chunk)
  have "set (pushWhile pc chunk (if real (length base) < pc then base @ [i] else base))
        \<subseteq> set (if real (length base) < pc then base @ [i] else base) \<union> set chunk"
    by (rule Cons.IH)
  then show ?case by auto
qed

lemma set_shuffle: "set (fst (shuffle rand c a)) = set a"
  using mset_shuffle[of rand c a] by (metis set_mset_mset)

lemma fillBase_returns:
  "ls \<noteq> [] \<Longrightarrow>
   \<exists>b c'. fillBase rand c ls pc base = Some (b, c') \<and> pc \<le> real (length b) \<and>
     set b \<subseteq> set base \<union> set ls"
proof (induction rand c ls pc base rule: fillBase.induct)
  case (1 rand c ls pc base)
  show ?case
  proof (cases "real (length base) < pc")
    case False
    have "fillBase rand c ls pc base = Some (base, c)"
      using False by (simp add: fillBase.simps[of rand c ls pc base])
    with False show ?thesis by auto
  next
    case True
    let ?chunk = "fst (shuffle rand c ls)"
    from True have nn: "\<not> \<not> real (length base) < pc" by simp
    from "1.IH"[OF nn "1.prems" "1.prems"]
    obtain b c' where r: "fillBase rand (snd (shuffle rand c ls)) ls pc (pushWhile pc ?chunk base) = Some (b, c')"
      and l: "pc \<le> real (length b)" and s: "set b \<subseteq> set (pushWhile pc ?chunk base) \<union> set ls"
      by blast
    have "set (pushWhile pc ?chunk base) \<subseteq> set base \<union> set ls"
      using set_pushWhile[of pc ?chunk base] by (simp add: set_shuffle)
    with s have s': "set b \<subseteq> set base \<union> set ls" by blast
    have "fillBase rand c ls pc base = Some (b, c')"
      using True "1.prems" r by (simp add: fillBase.simps[of rand c ls pc base])
    with l s' show ?thesis by blast
  qed
qed

lemma nth_tilesFrom:
  "i < length ps \<Longrightarrow> letterId (tilesFrom pairIds coverSet idx ps ! i) = pairIds ! (idx + i)"
proof (induction ps arbitrary: idx i)
  case Nil
  then show ?case by simp
next
  case (Cons p ps)
  then show ?case by (cases i) auto
qed

lemma initGame_returns:
  assumes ne: "js_slice0 letters 10 \<noteq> []"
  shows "\<exists>g'. initGame letters rand now layout rate g = Some g' \<and> gameState g' = Playing \<and>
     length (tiles g') = length layout \<and> tray g' = [] \<and> history g' = [] \<and> timeouts g' = [] \<and>
     hasStarted g' = hasStarted g \<and>
     (\<forall>t \<in> set (tiles g'). letterId t \<in> set letters \<and> \<not> removed t \<and> \<not> animatingOut t)"
proof -
  let ?pc = "real (length layout) / 2"
  let ?ls = "js_slice0 letters 10"
  from fillBase_returns[OF ne, of rand 0 ?pc "[]"]
  obtain b c1 where f: "fillBase rand 0 ?ls ?pc [] = Some (b, c1)"
    and l: "?pc \<le> real (length b)" and s: "set b \<subseteq> set ?ls"
    by auto
  let ?pairIds = "fst (shuffle rand c1 (b @ b))"
  let ?c2 = "snd (shuffle rand c1 (b @ b))"
  let ?coverSet = "set (js_slice0 (fst (shuffle rand ?c2 [0..<length ?pairIds])) (round (real (length ?pairIds) * rate)))"
  let ?g' = "g\<lparr>timeouts := [], tiles := tilesFrom ?pairIds ?coverSet 0 layout, tray := [], history := [],
                gameState := Playing, moveCount := 0, elapsedSec := 0, startTime := Some now\<rparr>"
  have run: "initGame letters rand now layout rate g = Some ?g'"
    by (simp add: initGame_def Let_def f)
  have lp: "length layout \<le> length ?pairIds"
    using l by (simp add: length_shuffle)
  have sl: "set ?ls \<subseteq> set letters"
    by (auto simp: js_slice0_def dest: in_set_takeD)
  have sp: "set ?pairIds \<subseteq> set letters"
    using s sl by (simp add: set_shuffle)
  have tl: "\<forall>t \<in> set (tiles ?g'). letterId t \<in> set letters \<and> \<not> removed t \<and> \<not> animatingOut t"
  proof
    fix t assume "t \<in> set (tiles ?g')"
    then obtain i where i: "i < length layout" and t: "t = tilesFrom ?pairIds ?coverSet 0 layout ! i"
      by (auto simp: in_set_conv_nth)
    from i lp have "?pairIds ! i \<in> set ?pairIds" by simp
    with sp have a: "letterId t \<in> set letters" using t i by (auto simp: nth_tilesFrom)
    have "\<And>cs idx ps u. u \<in> set (tilesFrom ?pairIds cs idx ps) \<Longrightarrow> \<not> removed u \<and> \<not> animatingOut u"
      subgoal for cs idx ps u by (induction ps arbitrary: idx) auto
      done
    with \<open>t \<in> set (tiles ?g')\<close> have "\<not> removed t \<and> \<not> animatingOut t" by simp
    with a show "letterId t \<in> set letters \<and> \<not> removed t \<and> \<not> animatingOut t" by simp
  qed
  from run tl show ?thesis by (intro exI[of _ ?g']) simp
qed

lemma tileCount_levelConfigOf:
  "24 \<le> tileCount (levelConfigOf L) \<and> tileCount (levelConfigOf L) \<le> 50 \<and>
   (L \<le> 14 \<longrightarrow> even (tileCount (levelConfigOf L)))"
  by (auto simp: levelConfigOf_def clamp_def max_def min_def)

lemma length_positionsPx: "int (length (positionsPx g)) = tileCount (levelConfigOf (currentLevel g))"
  using tileCount_levelConfigOf[of "currentLevel g"]
  by (simp add: positionsPx_def length_buildLayout)

text \<open>
  Claim C8 as stated fails. No path of the code raises an error: a request for 53 slots,
  one more than the pool holds, starts a session in play with 52 tiles, and a request for
  25 slots starts one with 25 tiles.
\<close>

theorem start_truncates_and_accepts_odd:
  "(\<exists>g'. initGame exampleLetters quarterRandom 0 (buildLayout 72 84 1 53) 0 initialGame = Some g' \<and>
      gameState g' = Playing \<and> length (tiles g') = 52) \<and>
   (\<exists>g'. initGame exampleLetters quarterRandom 0 (buildLayout 72 84 1 25) 0 initialGame = Some g' \<and>
      gameState g' = Playing \<and> length (tiles g') = 25)"
proof -
  have ne: "js_slice0 exampleLetters 10 \<noteq> []"
    by (simp add: js_slice0_def exampleLetters_def)
  from initGame_returns[OF ne, of quarterRandom 0 "buildLayout 72 84 1 53" 0 initialGame]
    initGame_returns[OF ne, of quarterRandom 0 "buildLayout 72 84 1 25" 0 initialGame]
  show ?thesis by (simp add: length_buildLayout) blast
qed

text \<open>
  Claim C8, amended. With a letter table that is not empty, session start always returns
  a game in play: \<open>buildLayout\<close> cuts a request beyond the pool down to its 52 slots and
  \<open>initGame\<close> makes one tile for every slot of the layout, whatever the parity. For every
  slot count from 0 to 52, in particular every even one, the board has exactly that many
  tiles, and every tile carries a letter of the table. The slot count that the component
  requests is even for the levels 1 to \<open>MAX_LEVEL\<close> and within the pool, and the started
  game has exactly that many tiles.
\<close>

theorem session_start_builds_board:
  assumes "js_slice0 letters 10 \<noteq> []"
  shows "(\<exists>g'. initGame letters rand now (buildLayout tw th level n) rate g = Some g' \<and>
            gameState g' = Playing \<and>
            (52 < n \<longrightarrow> length (tiles g') = 52) \<and>
            (0 \<le> n \<and> n \<le> 52 \<longrightarrow> int (length (tiles g')) = n) \<and>
            (\<forall>t \<in> set (tiles g'). letterId t \<in> set letters)) \<and>
         (\<exists>g'. startGame letters rand now g = Some g' \<and> gameState g' = Playing \<and>
            int (length (tiles g')) = tileCount (levelConfigOf (currentLevel g)) \<and>
            (1 \<le> currentLevel g \<and> currentLevel g \<le> MAX_LEVEL \<longrightarrow> even (length (tiles g'))))"
proof
  from initGame_returns[OF assms, of rand now "buildLayout tw th level n" rate g]
  show "\<exists>g'. initGame letters rand now (buildLayout tw th level n) rate g = Some g' \<and>
            gameState g' = Playing \<and>
            (52 < n \<longrightarrow> length (tiles g') = 52) \<and>
            (0 \<le> n \<and> n \<le> 52 \<longrightarrow> int (length (tiles g')) = n) \<and>
            (\<forall>t \<in> set (tiles g'). letterId t \<in> set letters)"
    by (auto simp: length_buildLayout)
next
  from initGame_returns[OF assms, of rand now "positionsPx g"
      "coverRate (levelConfigOf (currentLevel g))" "g\<lparr>hasStarted := True\<rparr>"]
  obtain g' where g': "startGame letters rand now g = Some g'" "gameState g' = Playing"
    "length (tiles g') = length (positionsPx g)"
    unfolding startGame_def by blast
  have len: "int (length (tiles g')) = tileCount (levelConfigOf (currentLevel g))"
    using g'(3) length_positionsPx[of g] by simp
  have "1 \<le> currentLevel g \<and> currentLevel g \<le> MAX_LEVEL \<longrightarrow> even (length (tiles g'))"
  proof
    assume "1 \<le> currentLevel g \<and> currentLevel g \<le> MAX_LEVEL"
    then have "even (tileCount (levelConfigOf (currentLevel g)))"
      using tileCount_levelConfigOf[of "currentLevel g"] by (simp add: MAX_LEVEL_def)
    with len show "even (length (tiles g'))" by (metis even_of_nat)
  qed
  with g' len show "\<exists>g'. startGame letters rand now g = Some g' \<and> gameState g' = Playing \<and>
            int (length (tiles g')) = tileCount (levelConfigOf (currentLevel g)) \<and>
            (1 \<le> currentLevel g \<and> currentLevel g \<le> MAX_LEVEL \<longrightarrow> even (length (tiles g')))"
    by blast
qed

theorem session_start_builds_board_witness:
  "js_slice0 exampleLetters 10 \<noteq> [] \<and>
   (\<exists>g'. initGame exampleLetters quarterRandom 0 (buildLayout 72 84 1 24) 0 initialGame = Some g' \<and>
      gameState g' = Playing \<and> length (tiles g') = 24) \<and>
   (\<exists>g'. startGame exampleLetters quarterRandom 0 initialGame = Some g' \<and>
      gameState g' = Playing \<and> length (tiles g') = 24 \<and> even (length (tiles g')))"
proof -
  have ne: "js_slice0 exampleLetters 10 \<noteq> []"
    by (simp add: js_slice0_def exampleLetters_def)
  have lv: "currentLevel initialGame = 1" "tileCount (levelConfigOf 1) = 24" "1 \<le> MAX_LEVEL"
    by (simp_all add: initialGame_def levelConfigOf_def clamp_def MAX_LEVEL_def)
  from session_start_builds_board[OF ne, of quarterRandom 0 72 84 1 24 0 initialGame] ne lv
  show ?thesis by simp blast
qed


section \<open>Invariants of the session\<close>

lemma length_markMatched [simp]: "length (markMatched now c ids tr) = length tr"
  by (induction tr arbitrary: c) auto

lemma length_tryRemovePairInTray [simp]: "length (fst (tryRemovePairInTray now c tr)) = length tr"
  by (simp add: tryRemovePairInTray_firstDup Let_def split: option.splits)

lemma pendingLetters_markMatched:
  "pendingLetters (markMatched now c ids tr) =
   map entry_letterId (filter (\<lambda>e. \<not> matchedOut e \<and> trayId e \<notin> set ids) tr)"
  by (induction tr arbitrary: c) (auto simp: pendingLetters_def)

lemma collectIds_covers:
  assumes "count_list (pendingLetters tr) l = 2"
  shows "\<forall>e \<in> set tr. \<not> matchedOut e \<and> entry_letterId e = l \<longrightarrow> trayId e \<in> set (collectIds l tr [])"
proof -
  let ?P = "\<lambda>e. entry_letterId e = l \<and> \<not> matchedOut e"
  have cnt: "\<And>xs. count_list (pendingLetters xs) l = length (filter ?P xs)"
    subgoal for xs by (induction xs) (auto simp: pendingLetters_def)
    done
  from assms have "length (filter ?P tr) = 2" by (simp add: cnt)
  then have "collectIds l tr [] = map trayId (filter ?P tr)"
    by (simp add: collectIds_take)
  then show ?thesis by auto
qed

lemma firstDup_snoc_distinct:
  "distinct P \<Longrightarrow> firstDup (P @ [x]) = (if x \<in> set P then Some x else None)"
  by (induction P) auto

lemma tray_resolution_distinct:
  assumes d: "distinct (pendingLetters tr0)" and n: "\<not> matchedOut new"
  shows "distinct (pendingLetters (fst (tryRemovePairInTray now c (tr0 @ [new]))))"
proof -
  let ?x = "entry_letterId new"
  let ?tr = "tr0 @ [new]"
  have P: "pendingLetters ?tr = pendingLetters tr0 @ [?x]"
    using n by (simp add: pendingLetters_def)
  show ?thesis
  proof (cases "?x \<in> set (pendingLetters tr0)")
    case False
    with d have "distinct (pendingLetters ?tr)" by (simp add: P)
    moreover from this have "tryRemovePairInTray now c ?tr = (?tr, [])"
      by (simp add: tryRemovePairInTray_firstDup firstDup_None[THEN iffD2])
    ultimately show ?thesis by simp
  next
    case True
    then have fd: "firstDup (pendingLetters ?tr) = Some ?x"
      using d by (simp add: P firstDup_snoc_distinct)
    have c2: "count_list (pendingLetters ?tr) ?x = 2"
      using True d by (simp add: P count_list_distinct)
    let ?ids = "collectIds ?x ?tr []"
    have cov: "\<forall>e \<in> set ?tr. \<not> matchedOut e \<and> entry_letterId e = ?x \<longrightarrow> trayId e \<in> set ?ids"
      by (rule collectIds_covers[OF c2])
    have rest: "filter (\<lambda>e. \<not> matchedOut e \<and> trayId e \<notin> set ?ids) ?tr =
                filter (\<lambda>e. trayId e \<notin> set ?ids) (filter (\<lambda>e. \<not> matchedOut e \<and> entry_letterId e \<noteq> ?x) ?tr)"
      unfolding filter_filter by (rule filter_cong) (use cov in auto)
    have "map entry_letterId (filter (\<lambda>e. \<not> matchedOut e \<and> entry_letterId e \<noteq> ?x) ?tr) =
          filter (\<lambda>l. l \<noteq> ?x) (pendingLetters ?tr)"
      by (simp add: pendingLetters_def filter_map comp_def conj_commute)
    also have "\<dots> = filter (\<lambda>l. l \<noteq> ?x) (pendingLetters tr0)" by (simp add: P)
    finally have "distinct (map entry_letterId (filter (\<lambda>e. \<not> matchedOut e \<and> entry_letterId e \<noteq> ?x) ?tr))"
      using d by simp
    then have dm: "distinct (pendingLetters (markMatched now c ?ids ?tr))"
      unfolding pendingLetters_markMatched rest by (rule distinct_map_filter)
    have "fst (tryRemovePairInTray now c ?tr) = ?tr \<or>
          fst (tryRemovePairInTray now c ?tr) = markMatched now c ?ids ?tr"
      by (simp add: tryRemovePairInTray_firstDup fd Let_def)
    moreover have "length ?ids = 2"
    proof -
      let ?Q = "\<lambda>e. entry_letterId e = ?x \<and> \<not> matchedOut e"
      have "\<And>xs. count_list (pendingLetters xs) ?x = length (filter ?Q xs)"
        subgoal for xs by (induction xs) (auto simp: pendingLetters_def)
        done
      with c2 have "length (filter ?Q ?tr) = 2" by simp
      then show ?thesis by (simp add: collectIds_take)
    qed
    ultimately have "fst (tryRemovePairInTray now c ?tr) = markMatched now c ?ids ?tr"
      by (simp add: tryRemovePairInTray_firstDup fd Let_def)
    with dm show ?thesis by simp
  qed
qed

lemma distinct_pending_filter:
  assumes d: "distinct (pendingLetters tr)"
  shows "distinct (pendingLetters (filter Q tr))"
proof -
  have "filter (\<lambda>e. \<not> matchedOut e) (filter Q tr) = filter Q (filter (\<lambda>e. \<not> matchedOut e) tr)"
    by (induction tr) auto
  then have "pendingLetters (filter Q tr) = map entry_letterId (filter Q (filter (\<lambda>e. \<not> matchedOut e) tr))"
    by (simp only: pendingLetters_def)
  moreover have "distinct (map entry_letterId (filter Q (filter (\<lambda>e. \<not> matchedOut e) tr)))"
    using d unfolding pendingLetters_def by (rule distinct_map_filter)
  ultimately show ?thesis by simp
qed


lemma pickTile_success:
  assumes "gameState g = Playing" and "find (\<lambda>x. tileId x = tid) (tiles g) = Some t"
    and "\<not> removed t" and "\<not> animatingOut t" and "tid \<in> freeTileIds g" and "\<not> covered t"
    and "length (tray g) < TRAY_LIMIT"
  shows "pickTile env tid g =
     g\<lparr>history := history g @
          [\<lparr> snap_tiles = tiles g, snap_tray = tray g, snap_gameState = Playing \<rparr>],
       tiles := map (\<lambda>x. if tileId x = tid then x\<lparr>animatingOut := True\<rparr> else x) (tiles g),
       tray := fst (tryRemovePairInTray (Date_now env) 2
                 (tray g @ [\<lparr> trayId = tid @ ''-'' @ showInt (Date_now env 1) @ ''-'' @ randomSuffix env,
                             entry_tileId = tid, entry_letterId = letterId t,
                             glowUntil = Date_now env 0 + 520, matchedOut = False \<rparr>])),
       moveCount := moveCount g + 1,
       timeouts := timeouts g @
          snd (tryRemovePairInTray (Date_now env) 2
                 (tray g @ [\<lparr> trayId = tid @ ''-'' @ showInt (Date_now env 1) @ ''-'' @ randomSuffix env,
                             entry_tileId = tid, entry_letterId = letterId t,
                             glowUntil = Date_now env 0 + 520, matchedOut = False \<rparr>])) @
          [(BOARD_REMOVE_MS, MarkRemoved tid)]\<rparr>"
  using assms by (simp add: pickTile_def pushHistory_def Let_def split_beta)

lemma pickTile_cases:
  obtains (same) "pickTile env tid g = g"
  | (uncover) "pickTile env tid g =
       g\<lparr>tiles := map (\<lambda>x. if tileId x = tid then x\<lparr>covered := False\<rparr> else x) (tiles g)\<rparr>"
  | (lose) "gameState g = Playing" "length (tray g) \<ge> TRAY_LIMIT"
      "pickTile env tid g = g\<lparr>gameState := Lose\<rparr>"
  | (success) t where "gameState g = Playing" "find (\<lambda>x. tileId x = tid) (tiles g) = Some t"
      "\<not> removed t" "\<not> animatingOut t" "tid \<in> freeTileIds g" "\<not> covered t"
      "length (tray g) < TRAY_LIMIT"
proof (cases "gameState g = Playing")
  case False
  then have "pickTile env tid g = g" by (simp add: pickTile_def)
  then show ?thesis by (rule same)
next
  case p: True
  show ?thesis
  proof (cases "find (\<lambda>x. tileId x = tid) (tiles g)")
    case None
    with p have "pickTile env tid g = g" by (simp add: pickTile_def)
    then show ?thesis by (rule same)
  next
    case (Some t)
    show ?thesis
    proof (cases "removed t \<or> animatingOut t \<or> tid \<notin> freeTileIds g")
      case True
      with p Some have "pickTile env tid g = g" by (auto simp: pickTile_def)
      then show ?thesis by (rule same)
    next
      case ok: False
      show ?thesis
      proof (cases "covered t")
        case True
        with p Some ok show ?thesis by (intro uncover) (simp add: pickTile_def)
      next
        case nc: False
        show ?thesis
        proof (cases "length (tray g) \<ge> TRAY_LIMIT")
          case True
          with p Some ok nc show ?thesis by (intro lose) (simp_all add: pickTile_def)
        next
          case False
          with p Some ok nc show ?thesis by (intro success[of t]) simp_all
        qed
      qed
    qed
  qed
qed

lemma find_Some_nonempty: "find P xs = Some x \<Longrightarrow> xs \<noteq> []"
  by (cases xs) auto

lemma noneGone_uncover:
  "noneGone ts \<Longrightarrow> noneGone (map (\<lambda>x. if tileId x = tid then x\<lparr>covered := False\<rparr> else x) ts)"
  by (auto simp: noneGone_def)

lemma sessionInv_pickTile:
  assumes inv: "sessionInv g"
  shows "sessionInv (pickTile env tid g)"
proof (cases env tid g rule: pickTile_cases)
  case same
  with inv show ?thesis by simp
next
  case uncover
  with inv show ?thesis by (auto simp: sessionInv_def noneGone_uncover)
next
  case lose
  from lose(2) have "tray g \<noteq> []" by (auto simp: TRAY_LIMIT_def)
  with inv have "history g \<noteq> []" by (auto simp: sessionInv_def)
  with inv lose(3) show ?thesis by (auto simp: sessionInv_def)
next
  case (success t)
  let ?new = "\<lparr> trayId = tid @ ''-'' @ showInt (Date_now env 1) @ ''-'' @ randomSuffix env,
                 entry_tileId = tid, entry_letterId = letterId t,
                 glowUntil = Date_now env 0 + 520, matchedOut = False \<rparr>"
  have d: "distinct (pendingLetters (fst (tryRemovePairInTray (Date_now env) 2 (tray g @ [?new]))))"
    using inv by (intro tray_resolution_distinct) (simp_all add: sessionInv_def)
  have ne: "tiles g \<noteq> []" using success(2) by (rule find_Some_nonempty)
  have hd: "history g \<noteq> [] \<Longrightarrow> hd (history g @ [\<lparr> snap_tiles = tiles g, snap_tray = tray g, snap_gameState = Playing \<rparr>]) = hd (history g)"
    by simp
  show ?thesis
    unfolding pickTile_success[OF success]
    using inv d ne by (cases "history g = []") (auto simp: sessionInv_def)
qed

lemma sessionInv_undo:
  assumes inv: "sessionInv g"
  shows "sessionInv (undo g)"
proof (cases "history g" rule: rev_cases)
  case Nil
  with inv show ?thesis by (simp add: undo_def sessionInv_def pendingLetters_def)
next
  case (snoc hs s)
  then have u: "undo g = g\<lparr>timeouts := [], tiles := snap_tiles s, tray := snap_tray s,
                       gameState := snap_gameState s, history := hs\<rparr>"
    by (simp add: undo_def Let_def)
  from inv snoc have s: "distinct (pendingLetters (snap_tray s))" "snap_gameState s = Playing"
    by (auto simp: sessionInv_def)
  show ?thesis
  proof (cases "hs = []")
    case True
    with inv snoc s show ?thesis unfolding u by (auto simp: sessionInv_def pendingLetters_def)
  next
    case False
    with inv snoc s show ?thesis unfolding u by (auto simp: sessionInv_def)
  qed
qed

lemma sessionInv_reshuffle:
  assumes inv: "sessionInv g"
  shows "sessionInv (reshuffle rand g)"
proof (cases "gameState g = Playing")
  case False
  with inv show ?thesis by (simp add: reshuffle_def)
next
  case True
  let ?ts = "reassign (fst (shuffle rand 0 (map letterId (filter (\<lambda>t. \<not> removed t) (tiles g))))) 0 (tiles g)"
  have r: "reshuffle rand g = g\<lparr>history := history g @
              [\<lparr> snap_tiles = tiles g, snap_tray = tray g, snap_gameState = Playing \<rparr>],
            tiles := ?ts\<rparr>"
    using True by (simp add: reshuffle_def pushHistory_def Let_def)
  have ne: "tiles g \<noteq> [] \<Longrightarrow> ?ts \<noteq> []"
    by (metis length_0_conv reassign_length)
  show ?thesis
    unfolding r using inv ne by (cases "history g = []") (auto simp: sessionInv_def)
qed

lemma sessionInv_goToIntro: "sessionInv (goToIntro g)"
  by (simp add: goToIntro_def sessionInv_def pendingLetters_def noneGone_def)

lemma sessionInv_fire:
  assumes inv: "sessionInv g"
  shows "sessionInv (fire k g)"
proof (cases "k < length (timeouts g)")
  case False
  with inv show ?thesis by (simp add: fire_def)
next
  case True
  then have h: "history g \<noteq> []" using inv by (auto simp: sessionInv_def)
  let ?g = "g\<lparr>timeouts := take k (timeouts g) @ drop (Suc k) (timeouts g)\<rparr>"
  have f: "fire k g = runTimer (snd (timeouts g ! k)) ?g" using True by (simp add: fire_def)
  show ?thesis
  proof (cases "snd (timeouts g ! k)")
    case (ClearTray ids)
    have "distinct (pendingLetters (filter (\<lambda>it. trayId it \<notin> set ids) (tray g)))"
      using inv by (intro distinct_pending_filter) (simp add: sessionInv_def)
    with inv h show ?thesis unfolding f ClearTray by (auto simp: runTimer_def sessionInv_def)
  next
    case (MarkRemoved tid)
    with inv h show ?thesis unfolding f by (auto simp: runTimer_def sessionInv_def)
  next
    case GoToIntro
    then show ?thesis unfolding f by (simp add: runTimer_def sessionInv_goToIntro)
  qed
qed

lemma sessionInv_winCheck:
  assumes inv: "sessionInv g"
  shows "sessionInv (winCheck g)"
proof (cases "hasStarted g \<and> gameState g = Playing \<and> length (aliveTiles g) = 0")
  case False
  with inv show ?thesis by (auto simp: winCheck_def)
next
  case True
  then have w: "winCheck g = g\<lparr>gameState := Win\<rparr>" by (simp add: winCheck_def)
  have "history g \<noteq> []"
  proof
    assume e: "history g = []"
    with inv True have "noneGone (tiles g)" "tiles g \<noteq> []" by (auto simp: sessionInv_def)
    then have "aliveTiles g = tiles g"
      by (auto simp: aliveTiles_def noneGone_def filter_id_conv)
    with True \<open>tiles g \<noteq> []\<close> show False by simp
  qed
  with inv show ?thesis unfolding w by (auto simp: sessionInv_def)
qed

lemma sessionInv_winEffect:
  assumes inv: "sessionInv g"
  shows "sessionInv (winEffect g)"
proof (cases "gameState g = Win")
  case False
  with inv show ?thesis by (simp add: winEffect_def)
next
  case True
  with inv have "history g \<noteq> []" by (auto simp: sessionInv_def)
  with inv True show ?thesis by (auto simp: winEffect_def Let_def sessionInv_def)
qed

lemma sessionInv_tick: "sessionInv g \<Longrightarrow> sessionInv (tick now g)"
  by (auto simp: tick_def sessionInv_def split: option.splits)

lemma sessionInv_onResize: "sessionInv g \<Longrightarrow> sessionInv (onResize w g)"
  by (auto simp: onResize_def Let_def sessionInv_def)

lemma sessionInv_setLevel: "sessionInv g \<Longrightarrow> sessionInv (setLevel lvl g)"
  by (auto simp: setLevel_def sessionInv_def)

lemma sessionInv_initGame:
  assumes "initGame letters rand now layout rate g = Some g'" and "layout \<noteq> [] \<or> \<not> hasStarted g"
  shows "sessionInv g'"
proof (cases "fillBase rand 0 (js_slice0 letters 10) (real (length layout) / 2) []")
  case None
  with assms(1) show ?thesis by (simp add: initGame_def Let_def)
next
  case (Some r)
  obtain b c1 where r: "r = (b, c1)" by (cases r) auto
  let ?pairIds = "fst (shuffle rand c1 (b @ b))"
  let ?c2 = "snd (shuffle rand c1 (b @ b))"
  let ?coverSet = "set (js_slice0 (fst (shuffle rand ?c2 [0..<length ?pairIds])) (round (real (length ?pairIds) * rate)))"
  have g': "g' = g\<lparr>timeouts := [], tiles := tilesFrom ?pairIds ?coverSet 0 layout, tray := [], history := [],
                gameState := Playing, moveCount := 0, elapsedSec := 0, startTime := Some now\<rparr>"
    using assms(1) Some r by (simp add: initGame_def Let_def)
  have ng: "\<And>cs idx ps. noneGone (tilesFrom ?pairIds cs idx ps)"
    subgoal for cs idx ps by (induction ps arbitrary: idx) (auto simp: noneGone_def)
    done
  have ne: "layout \<noteq> [] \<Longrightarrow> tilesFrom ?pairIds ?coverSet 0 layout \<noteq> []"
    by (metis length_0_conv length_tilesFrom)
  show ?thesis
    unfolding g' using ng ne assms(2) by (auto simp: sessionInv_def pendingLetters_def)
qed

lemma positionsPx_nonempty: "positionsPx g \<noteq> []"
proof -
  have "24 \<le> int (length (positionsPx g))"
    using length_positionsPx[of g] tileCount_levelConfigOf[of "currentLevel g"] by simp
  then show ?thesis by auto
qed

lemma positionsPx_hasStarted [simp]: "positionsPx (g\<lparr>hasStarted := b\<rparr>) = positionsPx g"
  by (simp add: positionsPx_def)

lemma sessionInv_step:
  assumes inv: "sessionInv g" and st: "step letters ev g = Some g'"
  shows "sessionInv g'"
proof (cases ev)
  case (Start rand now)
  with st have "initGame letters rand now (positionsPx g) (coverRate (levelConfigOf (currentLevel g)))
                  (g\<lparr>hasStarted := True\<rparr>) = Some g'"
    by (simp add: startGame_def)
  then show ?thesis by (rule sessionInv_initGame) (simp add: positionsPx_nonempty)
next
  case (AutoInit rand now)
  show ?thesis
  proof (cases "hasStarted g \<and> length (positionsPx g) \<noteq> 0 \<and> length (tiles g) = 0")
    case True
    with st AutoInit have "initGame letters rand now (positionsPx g) (coverRate (levelConfigOf (currentLevel g))) g = Some g'"
      by (simp add: autoInit_def)
    then show ?thesis by (rule sessionInv_initGame) (simp add: positionsPx_nonempty)
  next
    case False
    with st AutoInit have "g' = g" by (auto simp: autoInit_def)
    with inv show ?thesis by simp
  qed
next
  case (Pick env tid)
  with st inv show ?thesis by (auto simp: sessionInv_pickTile)
next
  case Undo
  with st inv show ?thesis by (auto simp: sessionInv_undo)
next
  case (Reshuffle rand)
  with st inv show ?thesis by (auto simp: sessionInv_reshuffle)
next
  case (Fire k)
  with st inv show ?thesis by (auto simp: sessionInv_fire)
next
  case WinCheck
  with st inv show ?thesis by (auto simp: sessionInv_winCheck)
next
  case WinEffect
  with st inv show ?thesis by (auto simp: sessionInv_winEffect)
next
  case (Tick now)
  with st inv show ?thesis by (auto simp: sessionInv_tick)
next
  case (Resize w)
  with st inv show ?thesis by (auto simp: sessionInv_onResize)
next
  case (SetLevel lvl)
  with st inv show ?thesis by (auto simp: sessionInv_setLevel)
qed

lemma sessionInv_initialGame: "sessionInv initialGame"
  by (simp add: initialGame_def sessionInv_def pendingLetters_def noneGone_def)

lemma reachable_sessionInv: "reachable letters g \<Longrightarrow> sessionInv g"
  by (induction rule: reachable.induct) (auto intro: sessionInv_initialGame sessionInv_step)
section \<open>A session on the first level\<close>

text \<open>
  A tile that nothing of its own or a higher layer overlaps, and that has one side open,
  is free: the criterion the session below uses to find the free tiles of the board
  without running the solver on all of it.
\<close>

lemma lateralScan_flags:
  "lateralScan m sg t us hl hr = Inr (a, b) \<Longrightarrow>
   (a \<longrightarrow> hl \<or> (\<exists>u \<in> set us. tileId u \<noteq> tileId t \<and>
      (\<exists>rt ro. m (tileId t) = Some rt \<and> m (tileId u) = Some ro \<and> verticalOverlap rt ro \<and>
         rright ro \<le> rleft rt \<and> rleft rt - rright ro \<le> sg))) \<and>
   (b \<longrightarrow> hr \<or> (\<exists>u \<in> set us. tileId u \<noteq> tileId t \<and>
      (\<exists>rt ro. m (tileId t) = Some rt \<and> m (tileId u) = Some ro \<and> verticalOverlap rt ro \<and>
         rleft ro \<ge> rright rt \<and> rleft ro - rright rt \<le> sg)))"
proof (induction us arbitrary: hl hr)
  case Nil
  then show ?case by simp
next
  case (Cons u us)
  show ?case
  proof (cases "tileId u = tileId t")
    case True
    with Cons.prems have "lateralScan m sg t us hl hr = Inr (a, b)" by simp
    from Cons.IH[OF this] show ?thesis by auto
  next
    case ne: False
    with Cons.prems obtain rt ro where r: "m (tileId t) = Some rt" "m (tileId u) = Some ro"
      by (auto split: option.splits)
    show ?thesis
    proof (cases "verticalOverlap rt ro")
      case False
      with Cons.prems ne r have "lateralScan m sg t us hl hr = Inr (a, b)" by simp
      from Cons.IH[OF this] show ?thesis by auto
    next
      case vo: True
      let ?l = "hl \<or> (rright ro \<le> rleft rt \<and> rleft rt - rright ro \<le> sg)"
      let ?r = "hr \<or> (rleft ro \<ge> rright rt \<and> rleft ro - rright rt \<le> sg)"
      show ?thesis
      proof (cases "?l \<and> ?r")
        case True
        with Cons.prems ne r vo have "a = ?l" "b = ?r" by (auto simp: Let_def)
        with ne r vo show ?thesis by auto
      next
        case False
        with Cons.prems ne r vo have "lateralScan m sg t us ?l ?r = Inr (a, b)"
          by (auto simp: Let_def)
        from Cons.IH[OF this] ne r vo show ?thesis by auto
      qed
    qed
  qed
qed

lemma free_if_side_open:
  assumes dist: "distinct (map tileId ts)"
    and t: "t \<in> set ts"
    and above: "unobstructed ts tw th zx zy t"
    and side: "leftOpen ts tw th zx zy (tw * sgf) t \<or> rightOpen ts tw th zx zy (tw * sgf) t"
  shows "\<exists>st. computeTileStatus ts tw th zx zy sgf = Inr st \<and> tileId t \<in> free st"
proof -
  define m where "m = buildRectById ts tw th zx zy Map.empty"
  define sl where "sl = groupByLayer ts Map.empty"
  have mrect: "\<And>u. u \<in> set ts \<Longrightarrow> m (tileId u) = Some (tileRectBase u tw th zx zy)"
    unfolding m_def using dist by (rule buildRectById_distinct)
  from computeTileStatus_total_run[of ts tw th zx zy sgf]
  obtain bT bS R st where p1: "overlapPass m ts ts ({}, {}, Map.empty) = Inr (bT, bS, R)"
    and p2: "lateralPass m sl (tw * sgf) bT bS ts \<lparr> free = {}, reasonById = R \<rparr> = Inr st"
    and run: "computeTileStatus ts tw th zx zy sgf = Inr st"
    unfolding m_def sl_def by blast
  have scan: "overlapScan m t ts = Inr None"
  proof (rule overlapScan_clear[of m t "tileRectBase t tw th zx zy", OF mrect[OF t]])
    show "\<forall>u\<in>set ts. tileId u \<noteq> tileId t \<longrightarrow>
          (\<exists>ro. m (tileId u) = Some ro \<and>
            (rectsOverlapAny (tileRectBase t tw th zx zy) ro \<longrightarrow> tile_z u < tile_z t))"
      using above mrect unfolding unobstructed_def by force
  qed
  have uniq: "\<forall>t' \<in> set ts. tileId t' = tileId t \<longrightarrow> t' = t"
    using dist t by (meson distinct_map inj_onD)
  have unblocked: "tileId t \<notin> bT \<union> bS"
    by (rule overlapPass_unblocked[OF p1]) (use uniq scan in auto)
  have layer: "layerOf sl t = filter (\<lambda>u. tile_z u = tile_z t) ts"
    unfolding sl_def by (rule layerTiles_eq)
  have "\<forall>u \<in> set (layerOf sl t). m (tileId u) \<noteq> None" using mrect by (simp add: layer)
  with mrect[OF t] obtain a b where lat: "lateralScan m (tw * sgf) t (layerOf sl t) False False = Inr (a, b)"
    using lateralScan_total[of m t "layerOf sl t" "tw * sgf" False False] by auto
  have "\<not> a \<or> \<not> b"
  proof (rule ccontr)
    assume "\<not> (\<not> a \<or> \<not> b)"
    then have ab: "a" "b" by auto
    from lateralScan_flags[OF lat] ab
    obtain u v where u: "u \<in> set ts" "tile_z u = tile_z t" "tileId u \<noteq> tileId t"
      "verticalOverlap (tileRectBase t tw th zx zy) (tileRectBase u tw th zx zy)"
      "rright (tileRectBase u tw th zx zy) \<le> rleft (tileRectBase t tw th zx zy)"
      "rleft (tileRectBase t tw th zx zy) - rright (tileRectBase u tw th zx zy) \<le> tw * sgf"
      and v: "v \<in> set ts" "tile_z v = tile_z t" "tileId v \<noteq> tileId t"
      "verticalOverlap (tileRectBase t tw th zx zy) (tileRectBase v tw th zx zy)"
      "rleft (tileRectBase v tw th zx zy) \<ge> rright (tileRectBase t tw th zx zy)"
      "rleft (tileRectBase v tw th zx zy) - rright (tileRectBase t tw th zx zy) \<le> tw * sgf"
      unfolding layer using mrect t by (auto simp: mrect)
    from side u v show False unfolding leftOpen_def rightOpen_def by blast
  qed
  then have "tileId t \<in> free st"
    by (rule lateralPass_free_in[OF p2 t unblocked lat])
  with run show ?thesis by blast
qed

lemma freeTileIds_member:
  assumes "distinct (map tileId (aliveTiles g))" and "t \<in> set (aliveTiles g)"
    and "unobstructed (aliveTiles g) (view_tileW g) (view_tileH g)
           (view_tileW g * 0.08) (view_tileH g * 0.07) t"
    and "leftOpen (aliveTiles g) (view_tileW g) (view_tileH g) (view_tileW g * 0.08) (view_tileH g * 0.07)
           (view_tileW g * sideGapFactor (levelConfigOf (currentLevel g))) t \<or>
         rightOpen (aliveTiles g) (view_tileW g) (view_tileH g) (view_tileW g * 0.08) (view_tileH g * 0.07)
           (view_tileW g * sideGapFactor (levelConfigOf (currentLevel g))) t"
  shows "tileId t \<in> freeTileIds g"
  using free_if_side_open[OF assms] by (auto simp: freeTileIds_def)


text \<open>
  The start of the session evaluated: the decimal rendering of the time stamp, the
  Fisher-Yates runs on the ten symbols of the level and on the twenty-four pair symbols,
  and the board they deal.
\<close>

lemma showNat_digit: "n < 10 \<Longrightarrow> showNat n = [digitChar n]"
  by (simp add: showNat.simps[of n])

lemma showNat_two:
  assumes "10 \<le> n" "n < 100"
  shows "showNat n = [digitChar (n div 10), digitChar (n mod 10)]"
proof -
  from assms have "n div 10 < 10" by simp
  with assms show ?thesis by (simp add: showNat.simps[of n] showNat_digit)
qed

lemma showInt_1000: "showInt 1000 = ''1000''"
proof -
  have "showNat 1000 = showNat 100 @ ''0''"
    by (simp add: showNat.simps[of 1000] digitChar_def)
  moreover have "showNat 100 = showNat 10 @ ''0''"
    by (simp add: showNat.simps[of 100] digitChar_def)
  moreover have "showNat 10 = ''10''" by (simp add: showNat_two digitChar_def)
  ultimately show ?thesis by (simp add: showInt_def)
qed

lemma Rep_quarterRandom: "Rep_unitReal (quarterRandom c) = 1 / 4"
  by (simp add: quarterRandom_def Abs_unitReal_inverse)

lemma shuffleFrom_step:
  "0 < i \<Longrightarrow> shuffleFrom rand c i a =
     shuffleFrom rand (Suc c) (i - 1)
       (a[i := a ! nat \<lfloor>Rep_unitReal (rand c) * real (i + 1)\<rfloor>,
          nat \<lfloor>Rep_unitReal (rand c) * real (i + 1)\<rfloor> := a ! i])"
  by (cases i) (simp_all add: Let_def)

lemma shuffle10:
  "shuffle quarterRandom c [''alef'', ''bet'', ''gimel'', ''dalet'', ''he'', ''vav'', ''zayin'',
     ''chet'', ''tet'', ''yod''] = ([''dalet'', ''chet'', ''alef'', ''he'', ''vav'', ''zayin'', ''bet'',
       ''tet'', ''yod'', ''gimel''], c + 9)"
  by (simp add: shuffle_def shuffleFrom_step Rep_quarterRandom del: shuffleFrom.simps(2))

lemma fillBase_example:
  "fillBase quarterRandom 0 (js_slice0 exampleLetters 10) 12 [] =
     Some ([''dalet'', ''chet'', ''alef'', ''he'', ''vav'', ''zayin'', ''bet'',
       ''tet'', ''yod'', ''gimel'', ''dalet'', ''chet''], 18)"
proof -
  let ?ten = "[''alef'', ''bet'', ''gimel'', ''dalet'', ''he'', ''vav'', ''zayin'', ''chet'', ''tet'', ''yod'']"
  let ?p = "[''dalet'', ''chet'', ''alef'', ''he'', ''vav'', ''zayin'', ''bet'', ''tet'', ''yod'', ''gimel'']"
  let ?b = "[''dalet'', ''chet'', ''alef'', ''he'', ''vav'', ''zayin'', ''bet'', ''tet'', ''yod'', ''gimel'',
             ''dalet'', ''chet'']"
  have t: "js_slice0 exampleLetters 10 = ?ten" by (simp add: js_slice0_def exampleLetters_def)
  have r3: "fillBase quarterRandom 18 ?ten 12 ?b = Some (?b, 18)"
    by (simp add: fillBase.simps[of quarterRandom 18 ?ten 12 ?b])
  have r2: "fillBase quarterRandom 9 ?ten 12 ?p = Some (?b, 18)"
    by (simp add: fillBase.simps[of quarterRandom 9 ?ten 12 ?p] shuffle10 r3)
  have r1: "fillBase quarterRandom 0 ?ten 12 [] = Some (?b, 18)"
    by (simp add: fillBase.simps[of quarterRandom 0 ?ten 12 "[]"] shuffle10 r2)
  show ?thesis unfolding t using r1 by simp
qed

lemma shuffle24:
  "fst (shuffle quarterRandom 18 [''dalet'', ''chet'', ''alef'', ''he'', ''vav'', ''zayin'', ''bet'',
       ''tet'', ''yod'', ''gimel'', ''dalet'', ''chet'', ''dalet'', ''chet'', ''alef'', ''he'', ''vav'', ''zayin'', ''bet'',
       ''tet'', ''yod'', ''gimel'', ''dalet'', ''chet'']) = examplePairIds"
  by (simp add: examplePairIds_def shuffle_def shuffleFrom_step Rep_quarterRandom del: shuffleFrom.simps(2))

lemma start_eval: "startGame exampleLetters quarterRandom 0 initialGame = Some startedGame"
proof -
  have p: "positionsPx initialGame = buildLayout 72 84 1 24"
    by (simp add: positionsPx_def initialGame_def levelConfigOf_def clamp_def)
  have l: "length examplePairIds = 24" by (simp add: examplePairIds_def)
  have r: "coverRate (levelConfigOf (currentLevel initialGame)) = 0"
    by (simp add: initialGame_def levelConfigOf_def clamp_def)
  have z: "\<And>xs :: nat list. js_slice0 xs 0 = []" by (simp add: js_slice0_def)
  show ?thesis
    unfolding startGame_def initGame_def p r Let_def
    by (simp add: length_buildLayout fillBase_example shuffle24 l z startedGame_def initialGame_def)
qed

lemma tiles_startedGame: "tiles startedGame = gone [] levelOneBoard"
  by (simp add: startedGame_def levelOneBoard_def examplePairIds_def mkTile_def buildLayout_def
      createLayoutPool_def mkSlot_def js_slice0_def Let_def Math_round_def round_def
      showNat_digit showNat_two digitChar_def gone_def)

lemma startedGame_fields:
  "gameState startedGame = Playing" "view_tileW startedGame = 72" "view_tileH startedGame = 84"
  "currentLevel startedGame = 1" "tray startedGame = []" "history startedGame = []"
  "moveCount startedGame = 0"
  by (simp_all add: startedGame_def initialGame_def)

lemmas board_eval = aliveTiles_def gone_def levelOneBoard_def mkTile_def levelConfigOf_def
  unobstructed_def leftOpen_def rightOpen_def tileRectBase_def Math_round_def round_def
  rectsOverlapAny_def verticalOverlap_def Let_def

lemma gone_step:
  "map (\<lambda>x. if tileId x = tid then x\<lparr>animatingOut := True\<rparr> else x) (gone ids ts) = gone (tid # ids) ts"
  by (induction ts) (auto simp: gone_def)

lemma free_pick1: "''t20'' \<in> freeTileIds startedGame"
proof -
  have t: "tiles startedGame = gone [] levelOneBoard" by (rule tiles_startedGame)
  have "tileId (mkTile ''t20'' ''gimel'' 91.44 103.68 2) \<in> freeTileIds startedGame"
    by (rule freeTileIds_member) (simp_all add: startedGame_fields t board_eval)
  then show ?thesis by (simp add: mkTile_def)
qed


text \<open>One successful activation on this board, field by field.\<close>

lemma pick_step:
  assumes g: "gameState g = Playing" "view_tileW g = 72" "view_tileH g = 84" "currentLevel g = 1"
    and ti: "tiles g = gone ids levelOneBoard"
    and f: "find (\<lambda>x. tileId x = tid) (gone ids levelOneBoard) = Some t"
    and ok: "\<not> removed t" "\<not> animatingOut t" "\<not> covered t"
    and fr: "tid \<in> freeTileIds g"
    and len: "length (tray g) < TRAY_LIMIT"
  shows "gameState (pickTile exampleEnv tid g) = Playing"
    and "view_tileW (pickTile exampleEnv tid g) = 72"
    and "view_tileH (pickTile exampleEnv tid g) = 84"
    and "currentLevel (pickTile exampleEnv tid g) = 1"
    and "tiles (pickTile exampleEnv tid g) = gone (tid # ids) levelOneBoard"
    and "tray (pickTile exampleEnv tid g) =
           fst (tryRemovePairInTray (\<lambda>n. 1000) 2
             (tray g @ [\<lparr> trayId = tid @ ''-1000-k3x9q1'', entry_tileId = tid,
                         entry_letterId = letterId t, glowUntil = 1520, matchedOut = False \<rparr>]))"
    and "timeouts (pickTile exampleEnv tid g) = timeouts g @
           snd (tryRemovePairInTray (\<lambda>n. 1000) 2
             (tray g @ [\<lparr> trayId = tid @ ''-1000-k3x9q1'', entry_tileId = tid,
                         entry_letterId = letterId t, glowUntil = 1520, matchedOut = False \<rparr>])) @
           [(BOARD_REMOVE_MS, MarkRemoved tid)]"
    and "history (pickTile exampleEnv tid g) = history g @
           [\<lparr> snap_tiles = tiles g, snap_tray = tray g, snap_gameState = Playing \<rparr>]"
    and "moveCount (pickTile exampleEnv tid g) = moveCount g + 1"
proof -
  from f ti have f': "find (\<lambda>x. tileId x = tid) (tiles g) = Some t" by simp
  note e = pickTile_success[OF g(1) f' ok(1,2) fr ok(3) len, of exampleEnv]
  show "gameState (pickTile exampleEnv tid g) = Playing" unfolding e using g by simp
  show "view_tileW (pickTile exampleEnv tid g) = 72" unfolding e using g by simp
  show "view_tileH (pickTile exampleEnv tid g) = 84" unfolding e using g by simp
  show "currentLevel (pickTile exampleEnv tid g) = 1" unfolding e using g by simp
  show "tiles (pickTile exampleEnv tid g) = gone (tid # ids) levelOneBoard"
    unfolding e by (simp add: ti gone_step)
  show "tray (pickTile exampleEnv tid g) =
           fst (tryRemovePairInTray (\<lambda>n. 1000) 2
             (tray g @ [\<lparr> trayId = tid @ ''-1000-k3x9q1'', entry_tileId = tid,
                         entry_letterId = letterId t, glowUntil = 1520, matchedOut = False \<rparr>]))"
    unfolding e by (simp add: exampleEnv_def showInt_1000)
  show "timeouts (pickTile exampleEnv tid g) = timeouts g @
           snd (tryRemovePairInTray (\<lambda>n. 1000) 2
             (tray g @ [\<lparr> trayId = tid @ ''-1000-k3x9q1'', entry_tileId = tid,
                         entry_letterId = letterId t, glowUntil = 1520, matchedOut = False \<rparr>])) @
           [(BOARD_REMOVE_MS, MarkRemoved tid)]"
    unfolding e by (simp add: exampleEnv_def showInt_1000)
  show "history (pickTile exampleEnv tid g) = history g @
           [\<lparr> snap_tiles = tiles g, snap_tray = tray g, snap_gameState = Playing \<rparr>]"
    unfolding e by simp
  show "moveCount (pickTile exampleEnv tid g) = moveCount g + 1" unfolding e by simp
qed

lemmas tray_eval = tryRemovePairInTray_def TRAY_MATCH_MS_def Let_def

lemma pick1_state:
  "gameState pick1 = Playing" "view_tileW pick1 = 72" "view_tileH pick1 = 84" "currentLevel pick1 = 1"
  "tiles pick1 = gone [''t20''] levelOneBoard"
  "tray pick1 = [\<lparr> trayId = ''t20-1000-k3x9q1'', entry_tileId = ''t20'', entry_letterId = ''gimel'',
      glowUntil = 1520, matchedOut = False \<rparr>]"
  "timeouts pick1 = [(240, MarkRemoved ''t20'')]"
  "length (history pick1) = 1" "moveCount pick1 = 1"
proof -
  have f: "find (\<lambda>x. tileId x = ''t20'') (gone [] levelOneBoard) = Some (mkTile ''t20'' ''gimel'' 91.44 103.68 2)"
    by (simp add: gone_def levelOneBoard_def mkTile_def)
  note s = pick_step[OF startedGame_fields(1-4) tiles_startedGame f _ _ _ free_pick1, folded pick1_def]
  have p: "\<not> removed (mkTile ''t20'' ''gimel'' 91.44 103.68 2)"
    "\<not> animatingOut (mkTile ''t20'' ''gimel'' 91.44 103.68 2)"
    "\<not> covered (mkTile ''t20'' ''gimel'' 91.44 103.68 2)" "length (tray startedGame) < TRAY_LIMIT"
    by (simp_all add: mkTile_def startedGame_fields TRAY_LIMIT_def)
  show "gameState pick1 = Playing" "view_tileW pick1 = 72" "view_tileH pick1 = 84" "currentLevel pick1 = 1"
    "tiles pick1 = gone [''t20''] levelOneBoard"
    by (rule s[OF p])+
  show "tray pick1 = [\<lparr> trayId = ''t20-1000-k3x9q1'', entry_tileId = ''t20'', entry_letterId = ''gimel'',
      glowUntil = 1520, matchedOut = False \<rparr>]"
    unfolding s(6)[OF p] by (simp add: startedGame_fields mkTile_def tray_eval)
  show "timeouts pick1 = [(240, MarkRemoved ''t20'')]"
    unfolding s(7)[OF p] by (simp add: startedGame_fields startedGame_def initialGame_def mkTile_def tray_eval BOARD_REMOVE_MS_def)
  show "length (history pick1) = 1" unfolding s(8)[OF p] by (simp add: startedGame_fields)
  show "moveCount pick1 = 1" unfolding s(9)[OF p] by (simp add: startedGame_fields)
qed


lemma free_pick2: "''t22'' \<in> freeTileIds pick1"
proof -
  have "tileId (mkTile ''t22'' ''zayin'' 91.44 189.36 2) \<in> freeTileIds pick1"
    by (rule freeTileIds_member) (simp_all add: pick1_state board_eval)
  then show ?thesis by (simp add: mkTile_def)
qed

lemma pick2_state:
  "gameState pick2 = Playing" "view_tileW pick2 = 72" "view_tileH pick2 = 84" "currentLevel pick2 = 1"
  "tiles pick2 = gone [''t22'', ''t20''] levelOneBoard"
  "tray pick2 = [\<lparr> trayId = ''t20-1000-k3x9q1'', entry_tileId = ''t20'', entry_letterId = ''gimel'',
      glowUntil = 1520, matchedOut = False \<rparr>,
     \<lparr> trayId = ''t22-1000-k3x9q1'', entry_tileId = ''t22'', entry_letterId = ''zayin'',
      glowUntil = 1520, matchedOut = False \<rparr>]"
  "timeouts pick2 = [(240, MarkRemoved ''t20''), (240, MarkRemoved ''t22'')]"
  "length (history pick2) = 2" "moveCount pick2 = 2"
proof -
  have f: "find (\<lambda>x. tileId x = ''t22'') (gone [''t20''] levelOneBoard) = Some (mkTile ''t22'' ''zayin'' 91.44 189.36 2)"
    by (simp add: gone_def levelOneBoard_def mkTile_def)
  note s = pick_step[OF pick1_state(1-5) f _ _ _ free_pick2, folded pick2_def]
  have p: "\<not> removed (mkTile ''t22'' ''zayin'' 91.44 189.36 2)"
    "\<not> animatingOut (mkTile ''t22'' ''zayin'' 91.44 189.36 2)"
    "\<not> covered (mkTile ''t22'' ''zayin'' 91.44 189.36 2)" "length (tray pick1) < TRAY_LIMIT"
    by (simp_all add: mkTile_def pick1_state TRAY_LIMIT_def)
  show "gameState pick2 = Playing" "view_tileW pick2 = 72" "view_tileH pick2 = 84" "currentLevel pick2 = 1"
    "tiles pick2 = gone [''t22'', ''t20''] levelOneBoard"
    by (rule s[OF p])+
  show "tray pick2 = [\<lparr> trayId = ''t20-1000-k3x9q1'', entry_tileId = ''t20'', entry_letterId = ''gimel'',
      glowUntil = 1520, matchedOut = False \<rparr>,
     \<lparr> trayId = ''t22-1000-k3x9q1'', entry_tileId = ''t22'', entry_letterId = ''zayin'',
      glowUntil = 1520, matchedOut = False \<rparr>]"
    unfolding s(6)[OF p] by (simp add: pick1_state mkTile_def tray_eval)
  show "timeouts pick2 = [(240, MarkRemoved ''t20''), (240, MarkRemoved ''t22'')]"
    unfolding s(7)[OF p] by (simp add: pick1_state mkTile_def tray_eval BOARD_REMOVE_MS_def)
  show "length (history pick2) = 2" unfolding s(8)[OF p] by (simp add: pick1_state)
  show "moveCount pick2 = 2" unfolding s(9)[OF p] by (simp add: pick1_state)
qed

lemma free_pick3: "''t0'' \<in> freeTileIds pick2"
proof -
  have "tileId (mkTile ''t0'' ''chet'' 18 103.68 0) \<in> freeTileIds pick2"
    by (rule freeTileIds_member) (simp_all add: pick2_state board_eval)
  then show ?thesis by (simp add: mkTile_def)
qed

lemma pick3_state:
  "gameState pick3 = Playing" "view_tileW pick3 = 72" "view_tileH pick3 = 84" "currentLevel pick3 = 1"
  "tiles pick3 = gone [''t0'', ''t22'', ''t20''] levelOneBoard"
  "tray pick3 = [\<lparr> trayId = ''t20-1000-k3x9q1'', entry_tileId = ''t20'', entry_letterId = ''gimel'',
      glowUntil = 1520, matchedOut = False \<rparr>,
     \<lparr> trayId = ''t22-1000-k3x9q1'', entry_tileId = ''t22'', entry_letterId = ''zayin'',
      glowUntil = 1520, matchedOut = False \<rparr>,
     \<lparr> trayId = ''t0-1000-k3x9q1'', entry_tileId = ''t0'', entry_letterId = ''chet'',
      glowUntil = 1520, matchedOut = False \<rparr>]"
  "timeouts pick3 = [(240, MarkRemoved ''t20''), (240, MarkRemoved ''t22''), (240, MarkRemoved ''t0'')]"
  "length (history pick3) = 3" "moveCount pick3 = 3"
proof -
  have f: "find (\<lambda>x. tileId x = ''t0'') (gone [''t22'', ''t20''] levelOneBoard) = Some (mkTile ''t0'' ''chet'' 18 103.68 0)"
    by (simp add: gone_def levelOneBoard_def mkTile_def)
  note s = pick_step[OF pick2_state(1-5) f _ _ _ free_pick3, folded pick3_def]
  have p: "\<not> removed (mkTile ''t0'' ''chet'' 18 103.68 0)"
    "\<not> animatingOut (mkTile ''t0'' ''chet'' 18 103.68 0)"
    "\<not> covered (mkTile ''t0'' ''chet'' 18 103.68 0)" "length (tray pick2) < TRAY_LIMIT"
    by (simp_all add: mkTile_def pick2_state TRAY_LIMIT_def)
  show "gameState pick3 = Playing" "view_tileW pick3 = 72" "view_tileH pick3 = 84" "currentLevel pick3 = 1"
    "tiles pick3 = gone [''t0'', ''t22'', ''t20''] levelOneBoard"
    by (rule s[OF p])+
  show "tray pick3 = [\<lparr> trayId = ''t20-1000-k3x9q1'', entry_tileId = ''t20'', entry_letterId = ''gimel'',
      glowUntil = 1520, matchedOut = False \<rparr>,
     \<lparr> trayId = ''t22-1000-k3x9q1'', entry_tileId = ''t22'', entry_letterId = ''zayin'',
      glowUntil = 1520, matchedOut = False \<rparr>,
     \<lparr> trayId = ''t0-1000-k3x9q1'', entry_tileId = ''t0'', entry_letterId = ''chet'',
      glowUntil = 1520, matchedOut = False \<rparr>]"
    unfolding s(6)[OF p] by (simp add: pick2_state mkTile_def tray_eval)
  show "timeouts pick3 = [(240, MarkRemoved ''t20''), (240, MarkRemoved ''t22''), (240, MarkRemoved ''t0'')]"
    unfolding s(7)[OF p] by (simp add: pick2_state mkTile_def tray_eval BOARD_REMOVE_MS_def)
  show "length (history pick3) = 3" unfolding s(8)[OF p] by (simp add: pick2_state)
  show "moveCount pick3 = 3" unfolding s(9)[OF p] by (simp add: pick2_state)
qed

lemma free_pick4: "''t12'' \<in> freeTileIds pick3"
proof -
  have "tileId (mkTile ''t12'' ''chet'' 91.44 103.68 1) \<in> freeTileIds pick3"
    by (rule freeTileIds_member) (simp_all add: pick3_state board_eval)
  then show ?thesis by (simp add: mkTile_def)
qed

lemma pick4_state:
  "gameState pick4 = Playing" "view_tileW pick4 = 72" "view_tileH pick4 = 84" "currentLevel pick4 = 1"
  "tiles pick4 = gone [''t12'', ''t0'', ''t22'', ''t20''] levelOneBoard"
  "tray pick4 = [\<lparr> trayId = ''t20-1000-k3x9q1'', entry_tileId = ''t20'', entry_letterId = ''gimel'',
      glowUntil = 1520, matchedOut = False \<rparr>,
     \<lparr> trayId = ''t22-1000-k3x9q1'', entry_tileId = ''t22'', entry_letterId = ''zayin'',
      glowUntil = 1520, matchedOut = False \<rparr>,
     \<lparr> trayId = ''t0-1000-k3x9q1'', entry_tileId = ''t0'', entry_letterId = ''chet'',
      glowUntil = 2450, matchedOut = True \<rparr>,
     \<lparr> trayId = ''t12-1000-k3x9q1'', entry_tileId = ''t12'', entry_letterId = ''chet'',
      glowUntil = 2450, matchedOut = True \<rparr>]"
  "timeouts pick4 = [(240, MarkRemoved ''t20''), (240, MarkRemoved ''t22''), (240, MarkRemoved ''t0''),
     (1450, ClearTray [''t0-1000-k3x9q1'', ''t12-1000-k3x9q1'']), (240, MarkRemoved ''t12'')]"
  "length (history pick4) = 4" "moveCount pick4 = 4"
  "history pick4 = history pick3 @ [\<lparr> snap_tiles = tiles pick3, snap_tray = tray pick3, snap_gameState = Playing \<rparr>]"
proof -
  have f: "find (\<lambda>x. tileId x = ''t12'') (gone [''t0'', ''t22'', ''t20''] levelOneBoard) = Some (mkTile ''t12'' ''chet'' 91.44 103.68 1)"
    by (simp add: gone_def levelOneBoard_def mkTile_def)
  note s = pick_step[OF pick3_state(1-5) f _ _ _ free_pick4, folded pick4_def]
  have p: "\<not> removed (mkTile ''t12'' ''chet'' 91.44 103.68 1)"
    "\<not> animatingOut (mkTile ''t12'' ''chet'' 91.44 103.68 1)"
    "\<not> covered (mkTile ''t12'' ''chet'' 91.44 103.68 1)" "length (tray pick3) < TRAY_LIMIT"
    by (simp_all add: mkTile_def pick3_state TRAY_LIMIT_def)
  show "gameState pick4 = Playing" "view_tileW pick4 = 72" "view_tileH pick4 = 84" "currentLevel pick4 = 1"
    "tiles pick4 = gone [''t12'', ''t0'', ''t22'', ''t20''] levelOneBoard"
    by (rule s[OF p])+
  show "tray pick4 = [\<lparr> trayId = ''t20-1000-k3x9q1'', entry_tileId = ''t20'', entry_letterId = ''gimel'',
      glowUntil = 1520, matchedOut = False \<rparr>,
     \<lparr> trayId = ''t22-1000-k3x9q1'', entry_tileId = ''t22'', entry_letterId = ''zayin'',
      glowUntil = 1520, matchedOut = False \<rparr>,
     \<lparr> trayId = ''t0-1000-k3x9q1'', entry_tileId = ''t0'', entry_letterId = ''chet'',
      glowUntil = 2450, matchedOut = True \<rparr>,
     \<lparr> trayId = ''t12-1000-k3x9q1'', entry_tileId = ''t12'', entry_letterId = ''chet'',
      glowUntil = 2450, matchedOut = True \<rparr>]"
    unfolding s(6)[OF p] by (simp add: pick3_state mkTile_def tray_eval)
  show "timeouts pick4 = [(240, MarkRemoved ''t20''), (240, MarkRemoved ''t22''), (240, MarkRemoved ''t0''),
     (1450, ClearTray [''t0-1000-k3x9q1'', ''t12-1000-k3x9q1'']), (240, MarkRemoved ''t12'')]"
    unfolding s(7)[OF p] by (simp add: pick3_state mkTile_def tray_eval BOARD_REMOVE_MS_def)
  show "length (history pick4) = 4" unfolding s(8)[OF p] by (simp add: pick3_state)
  show "moveCount pick4 = 4" unfolding s(9)[OF p] by (simp add: pick3_state)
  show "history pick4 = history pick3 @ [\<lparr> snap_tiles = tiles pick3, snap_tray = tray pick3, snap_gameState = Playing \<rparr>]"
    unfolding s(8)[OF p] by simp
qed

lemma free_pick5: "''t4'' \<in> freeTileIds pick4"
proof -
  have "tileId (mkTile ''t4'' ''tet'' 18 189.36 0) \<in> freeTileIds pick4"
    by (rule freeTileIds_member) (simp_all add: pick4_state board_eval)
  then show ?thesis by (simp add: mkTile_def)
qed

lemma pick5_eq: "pick5 = pick4\<lparr>gameState := Lose\<rparr>"
proof -
  have f: "find (\<lambda>x. tileId x = ''t4'') (tiles pick4) = Some (mkTile ''t4'' ''tet'' 18 189.36 0)"
    by (simp add: pick4_state gone_def levelOneBoard_def mkTile_def)
  show ?thesis unfolding pick5_def
    by (rule pickTile_overflow[OF pick4_state(1) f _ _ free_pick5])
       (simp_all add: mkTile_def pick4_state TRAY_LIMIT_def)
qed


text \<open>Every state of the session is reachable.\<close>

lemma reachable_startedGame: "reachable exampleLetters startedGame"
  by (rule reachable.after[OF reachable.initial, of _ "Start quarterRandom 0"])
     (simp add: start_eval)

lemma reachable_pick1: "reachable exampleLetters pick1"
  by (rule reachable.after[OF reachable_startedGame, of "Pick exampleEnv ''t20''"])
     (simp add: pick1_def)

lemma reachable_pick2: "reachable exampleLetters pick2"
  by (rule reachable.after[OF reachable_pick1, of "Pick exampleEnv ''t22''"])
     (simp add: pick2_def)

lemma reachable_pick3: "reachable exampleLetters pick3"
  by (rule reachable.after[OF reachable_pick2, of "Pick exampleEnv ''t0''"])
     (simp add: pick3_def)

lemma reachable_pick4: "reachable exampleLetters pick4"
  by (rule reachable.after[OF reachable_pick3, of "Pick exampleEnv ''t12''"])
     (simp add: pick4_def)

lemma reachable_pick5: "reachable exampleLetters pick5"
  by (rule reachable.after[OF reachable_pick4, of "Pick exampleEnv ''t4''"])
     (simp add: pick5_def)


section \<open>Undo, terminal states and the tray invariant\<close>

lemma freeTileIds_pairGame: "freeTileIds pairGame = {''t1'', ''t0''}"
  by (simp add: freeTileIds_def pairGame_def aliveTiles_def mkTile_def computeTileStatus_def
      levelConfigOf_def tileRectBase_def Math_round_def rectsOverlapAny_def verticalOverlap_def
      Let_def round_def)

lemma undo_snoc:
  "history g = hs @ [s] \<Longrightarrow>
   undo g = g\<lparr>timeouts := [], tiles := snap_tiles s, tray := snap_tray s,
              gameState := snap_gameState s, history := hs\<rparr>"
  by (simp add: undo_def Let_def)

lemma undo_empty: "history g = [] \<Longrightarrow> undo g = g\<lparr>timeouts := []\<rparr>"
  by (simp add: undo_def)

text \<open>
  Claim C6. An activation that inserts into the tray appends one entry and pushes the
  snapshot of the board, the tray and the state before it on the history; an undo right
  after it restores the tiles, the tray, the state and the history of before (so the tray
  length and the tile count too). In general undo restores the last snapshot and pops
  it. With an empty history undo changes no field of the game (it only cancels the
  pending callbacks), and a second undo changes nothing at all; in a state the session
  can reach, no callback is pending while the history is empty, and undo is the identity.
\<close>

theorem undo_restores_activation:
  "(gameState g = Playing \<and> find (\<lambda>x. tileId x = tid) (tiles g) = Some t \<and>
    \<not> removed t \<and> \<not> animatingOut t \<and> tid \<in> freeTileIds g \<and> \<not> covered t \<and>
    length (tray g) < TRAY_LIMIT \<longrightarrow>
      length (tray (pickTile env tid g)) = Suc (length (tray g)) \<and>
      history (pickTile env tid g) = history g @
        [\<lparr> snap_tiles = tiles g, snap_tray = tray g, snap_gameState = gameState g \<rparr>] \<and>
      tiles (undo (pickTile env tid g)) = tiles g \<and>
      tray (undo (pickTile env tid g)) = tray g \<and>
      gameState (undo (pickTile env tid g)) = gameState g \<and>
      history (undo (pickTile env tid g)) = history g) \<and>
   (history g = hs @ [s] \<longrightarrow>
      tiles (undo g) = snap_tiles s \<and> tray (undo g) = snap_tray s \<and>
      gameState (undo g) = snap_gameState s \<and> history (undo g) = hs) \<and>
   (history g = [] \<longrightarrow> undo g = g\<lparr>timeouts := []\<rparr> \<and> undo (undo g) = undo g) \<and>
   (reachable letters g \<and> history g = [] \<longrightarrow> undo g = g)"
proof (intro conjI impI)
  assume h: "gameState g = Playing \<and> find (\<lambda>x. tileId x = tid) (tiles g) = Some t \<and>
    \<not> removed t \<and> \<not> animatingOut t \<and> tid \<in> freeTileIds g \<and> \<not> covered t \<and>
    length (tray g) < TRAY_LIMIT"
  then have p: "gameState g = Playing" "find (\<lambda>x. tileId x = tid) (tiles g) = Some t"
    "\<not> removed t" "\<not> animatingOut t" "tid \<in> freeTileIds g" "\<not> covered t"
    "length (tray g) < TRAY_LIMIT" by simp_all
  note ps = pickTile_success[OF p, of env]
  show "length (tray (pickTile env tid g)) = Suc (length (tray g))"
    unfolding ps by simp
  show hist: "history (pickTile env tid g) = history g @
        [\<lparr> snap_tiles = tiles g, snap_tray = tray g, snap_gameState = gameState g \<rparr>]"
    unfolding ps using p(1) by simp
  note u = undo_snoc[OF hist]
  show "tiles (undo (pickTile env tid g)) = tiles g" unfolding u by simp
  show "tray (undo (pickTile env tid g)) = tray g" unfolding u by simp
  show "gameState (undo (pickTile env tid g)) = gameState g" unfolding u by simp
  show "history (undo (pickTile env tid g)) = history g" unfolding u by simp
next
  assume h: "history g = hs @ [s]"
  note u = undo_snoc[OF h]
  show "tiles (undo g) = snap_tiles s" unfolding u by simp
  show "tray (undo g) = snap_tray s" unfolding u by simp
  show "gameState (undo g) = snap_gameState s" unfolding u by simp
  show "history (undo g) = hs" unfolding u by simp
next
  assume h: "history g = []"
  show "undo g = g\<lparr>timeouts := []\<rparr>" using h by (rule undo_empty)
  show "undo (undo g) = undo g" using h by (simp add: undo_def)
next
  assume h: "reachable letters g \<and> history g = []"
  then have "sessionInv g" using reachable_sessionInv by blast
  with h have "timeouts g = []" by (simp add: sessionInv_def)
  with h show "undo g = g" by (simp add: undo_empty)
qed

theorem undo_restores_activation_witness:
  "gameState pairGame = Playing \<and>
   find (\<lambda>x. tileId x = ''t0'') (tiles pairGame) = Some (mkTile ''t0'' ''alef'' 0 0 0) \<and>
   ''t0'' \<in> freeTileIds pairGame \<and> length (tray pairGame) < TRAY_LIMIT \<and>
   length (tray (pickTile exampleEnv ''t0'' pairGame)) = 1 \<and>
   length (history (pickTile exampleEnv ''t0'' pairGame)) = 1 \<and>
   tiles (undo (pickTile exampleEnv ''t0'' pairGame)) = tiles pairGame \<and>
   tray (undo (pickTile exampleEnv ''t0'' pairGame)) = [] \<and>
   gameState (undo (pickTile exampleEnv ''t0'' pairGame)) = Playing \<and>
   history (undo (pickTile exampleEnv ''t0'' pairGame)) = [] \<and>
   history fullTrayGame = [] @ [hd (history fullTrayGame)] \<and>
   tray (undo fullTrayGame) = take 3 fullTray \<and> history (undo fullTrayGame) = [] \<and>
   history pairGame = [] \<and> undo (undo pairGame) = undo pairGame \<and>
   reachable exampleLetters startedGame \<and> history startedGame = [] \<and>
   undo startedGame = startedGame"
proof -
  have a: "gameState pairGame = Playing"
    "find (\<lambda>x. tileId x = ''t0'') (tiles pairGame) = Some (mkTile ''t0'' ''alef'' 0 0 0)"
    "\<not> removed (mkTile ''t0'' ''alef'' 0 0 0)" "\<not> animatingOut (mkTile ''t0'' ''alef'' 0 0 0)"
    "\<not> covered (mkTile ''t0'' ''alef'' 0 0 0)" "length (tray pairGame) < TRAY_LIMIT"
    "tray pairGame = []" "history pairGame = []"
    by (simp_all add: pairGame_def mkTile_def TRAY_LIMIT_def)
  have f: "''t0'' \<in> freeTileIds pairGame" by (simp add: freeTileIds_pairGame)
  have b: "history fullTrayGame = [] @ [hd (history fullTrayGame)]"
    "snap_tray (hd (history fullTrayGame)) = take 3 fullTray"
    by (simp_all add: fullTrayGame_def)
  have c: "reachable exampleLetters startedGame" "history startedGame = []"
    by (rule reachable_startedGame) (simp add: startedGame_fields)
  note th = undo_restores_activation[of pairGame "''t0''" "mkTile ''t0'' ''alef'' 0 0 0" exampleEnv
      "[]" "hd (history fullTrayGame)" exampleLetters]
  from th a(8) have r0: "undo (undo pairGame) = undo pairGame" by blast
  from th a f
  have r1: "length (tray (pickTile exampleEnv ''t0'' pairGame)) = 1"
    "length (history (pickTile exampleEnv ''t0'' pairGame)) = 1"
    "tiles (undo (pickTile exampleEnv ''t0'' pairGame)) = tiles pairGame"
    "tray (undo (pickTile exampleEnv ''t0'' pairGame)) = []"
    "gameState (undo (pickTile exampleEnv ''t0'' pairGame)) = Playing"
    "history (undo (pickTile exampleEnv ''t0'' pairGame)) = []"
    by simp_all
  from undo_restores_activation[of fullTrayGame "''t0''" "mkTile ''t0'' ''alef'' 0 0 0" exampleEnv
      "[]" "hd (history fullTrayGame)" exampleLetters] b
  have r2: "tray (undo fullTrayGame) = take 3 fullTray" "history (undo fullTrayGame) = []"
    by simp_all
  from undo_restores_activation[of startedGame "''t0''" "mkTile ''t0'' ''alef'' 0 0 0" exampleEnv
      "[]" "hd (history fullTrayGame)" exampleLetters] c
  have r3: "undo startedGame = startedGame" by blast
  from a f b c r0 r1 r2 r3 show ?thesis by simp
qed

text \<open>
  Claim C9 as stated fails for undo. In the session on the first level, four activations
  leave four entries in the tray (two pending, two matched and waiting for their
  removal); the fifth activation loses the game, and undo then puts it back in play with
  the tray of before the fourth activation.
\<close>

theorem undo_leaves_lost_game:
  "reachable exampleLetters pick4 \<and> gameState pick4 = Playing \<and> length (tray pick4) = 4 \<and>
   step exampleLetters (Pick exampleEnv ''t4'') pick4 = Some pick5 \<and>
   reachable exampleLetters pick5 \<and> gameState pick5 = Lose \<and>
   step exampleLetters Undo pick5 = Some (undo pick5) \<and>
   gameState (undo pick5) = Playing \<and> tray (undo pick5) = tray pick3"
proof -
  have h: "history pick5 = history pick3 @
      [\<lparr> snap_tiles = tiles pick3, snap_tray = tray pick3, snap_gameState = Playing \<rparr>]"
    by (simp add: pick5_eq pick4_state(10))
  have l: "gameState pick5 = Lose" by (simp add: pick5_eq)
  have u: "gameState (undo pick5) = Playing" "tray (undo pick5) = tray pick3"
    unfolding undo_snoc[OF h] by simp_all
  have s: "step exampleLetters (Pick exampleEnv ''t4'') pick4 = Some pick5"
    "step exampleLetters Undo pick5 = Some (undo pick5)"
    by (simp_all add: pick5_def)
  have t: "length (tray pick4) = 4" by (simp add: pick4_state)
  from reachable_pick4 reachable_pick5 pick4_state(1) t s l u show ?thesis by blast
qed

lemma runTimer_gameState:
  "a \<noteq> GoToIntro \<Longrightarrow> gameState (runTimer a g) = gameState g"
  by (cases a) (simp_all add: runTimer_def)

text \<open>
  Claim C9, amended. In the state win or lose, tile activation and reshuffle return the
  game unchanged, and undo with an empty history keeps the state. The only events after
  which the game is in play again are a session start (the start button or the start
  effect), the callback that returns to the intro, and undo with a snapshot on the
  history, which restores the state of the snapshot.
\<close>

theorem terminal_left_only_by_reset_or_undo:
  assumes fin: "gameState g = Win \<or> gameState g = Lose"
  shows "pickTile env tid g = g \<and> reshuffle rand g = g \<and>
         (history g = [] \<longrightarrow> gameState (undo g) = gameState g) \<and>
         (\<forall>ev g'. step letters ev g = Some g' \<and> gameState g' = Playing \<longrightarrow>
            (\<exists>r n. ev = Start r n \<or> ev = AutoInit r n) \<or>
            (\<exists>k. ev = Fire k \<and> k < length (timeouts g) \<and> snd (timeouts g ! k) = GoToIntro) \<or>
            (ev = Undo \<and> history g \<noteq> []))"
proof (intro conjI allI impI)
  from fin have np: "gameState g \<noteq> Playing" by auto
  show "pickTile env tid g = g" using np by (simp add: pickTile_def)
  show "reshuffle rand g = g" using np by (simp add: reshuffle_def)
  show "gameState (undo g) = gameState g" if "history g = []"
    using that by (simp add: undo_empty)
  fix ev g'
  assume s: "step letters ev g = Some g' \<and> gameState g' = Playing"
  show "(\<exists>r n. ev = Start r n \<or> ev = AutoInit r n) \<or>
        (\<exists>k. ev = Fire k \<and> k < length (timeouts g) \<and> snd (timeouts g ! k) = GoToIntro) \<or>
        (ev = Undo \<and> history g \<noteq> [])"
  proof (cases ev)
    case (Start r n) then show ?thesis by blast
  next
    case (AutoInit r n) then show ?thesis by blast
  next
    case (Pick e i)
    with s np show ?thesis by (simp add: pickTile_def)
  next
    case Undo
    with s np show ?thesis by (cases "history g = []") (auto simp: undo_empty)
  next
    case (Reshuffle r)
    with s np show ?thesis by (simp add: reshuffle_def)
  next
    case (Fire k)
    show ?thesis
    proof (cases "k < length (timeouts g) \<and> snd (timeouts g ! k) = GoToIntro")
      case True
      with Fire show ?thesis by blast
    next
      case False
      with Fire s np show ?thesis by (auto simp: fire_def runTimer_gameState split: if_splits)
    qed
  next
    case WinCheck
    with s np show ?thesis by (auto simp: winCheck_def split: if_splits)
  next
    case WinEffect
    with s np show ?thesis by (auto simp: winEffect_def Let_def split: if_splits)
  next
    case (Tick n)
    with s np show ?thesis by (auto simp: tick_def split: if_splits option.splits)
  next
    case (Resize w)
    with s np show ?thesis by (auto simp: onResize_def Let_def)
  next
    case (SetLevel l)
    with s np show ?thesis by (auto simp: setLevel_def split: if_splits)
  qed
qed

theorem terminal_left_only_by_reset_or_undo_witness:
  "(gameState lostGame = Win \<or> gameState lostGame = Lose) \<and>
   pickTile exampleEnv ''t0'' lostGame = lostGame \<and> reshuffle quarterRandom lostGame = lostGame \<and>
   history lostGame = [] \<and> gameState (undo lostGame) = Lose \<and>
   (gameState lostFullTray = Win \<or> gameState lostFullTray = Lose) \<and>
   step exampleLetters Undo lostFullTray = Some (undo lostFullTray) \<and>
   gameState (undo lostFullTray) = Playing \<and> length (history lostFullTray) = 1"
proof -
  have a: "gameState lostGame = Win \<or> gameState lostGame = Lose" "history lostGame = []"
    "gameState lostGame = Lose"
    by (simp_all add: lostGame_def shuffleGame_def pairGame_def)
  have b: "gameState lostFullTray = Win \<or> gameState lostFullTray = Lose"
    "step exampleLetters Undo lostFullTray = Some (undo lostFullTray)"
    "gameState (undo lostFullTray) = Playing" "length (history lostFullTray) = 1"
    by (simp_all add: lostFullTray_def fullTrayGame_def undo_def Let_def)
  from terminal_left_only_by_reset_or_undo[OF b(1), of exampleEnv "''t0''" quarterRandom exampleLetters] b
  have "history lostFullTray \<noteq> []" by blast
  with terminal_left_only_by_reset_or_undo[OF a(1), of exampleEnv "''t0''" quarterRandom exampleLetters] a b
  show ?thesis by simp
qed

text \<open>
  Claim C10. In every state the session can reach, the pending (not matched out) entries
  of the tray carry pairwise distinct symbols, and so do those of every snapshot. The
  property is kept by a tile activation (insertion followed by pair resolution), by every
  delayed callback (the removal of matched entries among them) and, when the snapshots
  have it, by undo.
\<close>

theorem tray_pending_symbols_distinct:
  "(reachable letters g \<longrightarrow>
      distinct (pendingLetters (tray g)) \<and>
      (\<forall>s \<in> set (history g). distinct (pendingLetters (snap_tray s)))) \<and>
   (distinct (pendingLetters (tray g)) \<longrightarrow>
      distinct (pendingLetters (tray (pickTile env tid g))) \<and>
      distinct (pendingLetters (tray (fire k g)))) \<and>
   (distinct (pendingLetters (tray g)) \<and>
    (\<forall>s \<in> set (history g). distinct (pendingLetters (snap_tray s))) \<longrightarrow>
      distinct (pendingLetters (tray (undo g))))"
proof (intro conjI impI)
  assume "reachable letters g"
  then have i: "sessionInv g" by (rule reachable_sessionInv)
  then show "distinct (pendingLetters (tray g))" by (simp add: sessionInv_def)
  from i show "\<forall>s \<in> set (history g). distinct (pendingLetters (snap_tray s))"
    by (simp add: sessionInv_def)
next
  assume d: "distinct (pendingLetters (tray g))"
  show "distinct (pendingLetters (tray (pickTile env tid g)))"
  proof (cases env tid g rule: pickTile_cases)
    case same
    with d show ?thesis by simp
  next
    case uncover
    with d show ?thesis by simp
  next
    case lose
    with d show ?thesis by simp
  next
    case (success t)
    show ?thesis
      unfolding pickTile_success[OF success]
      using d by (simp add: tray_resolution_distinct)
  qed
  show "distinct (pendingLetters (tray (fire k g)))"
  proof (cases "k < length (timeouts g)")
    case False
    with d show ?thesis by (simp add: fire_def)
  next
    case True
    show ?thesis
    proof (cases "snd (timeouts g ! k)")
      case (ClearTray ids)
      with True d show ?thesis by (simp add: fire_def runTimer_def distinct_pending_filter)
    next
      case (MarkRemoved i)
      with True d show ?thesis by (simp add: fire_def runTimer_def)
    next
      case GoToIntro
      with True show ?thesis by (simp add: fire_def runTimer_def goToIntro_def pendingLetters_def)
    qed
  qed
next
  assume h: "distinct (pendingLetters (tray g)) \<and>
    (\<forall>s \<in> set (history g). distinct (pendingLetters (snap_tray s)))"
  show "distinct (pendingLetters (tray (undo g)))"
  proof (cases "history g" rule: rev_cases)
    case Nil
    with h show ?thesis by (simp add: undo_empty)
  next
    case (snoc hs s)
    with h show ?thesis by (simp add: undo_snoc[OF snoc])
  qed
qed

theorem tray_pending_symbols_distinct_witness:
  "reachable exampleLetters pick4 \<and>
   map entry_letterId (tray pick4) = [''gimel'', ''zayin'', ''chet'', ''chet''] \<and>
   pendingLetters (tray pick4) = [''gimel'', ''zayin''] \<and>
   distinct (pendingLetters (tray pick4)) \<and>
   last (history pick4) \<in> set (history pick4) \<and>
   pendingLetters (snap_tray (last (history pick4))) = [''gimel'', ''zayin'', ''chet''] \<and>
   distinct (pendingLetters (snap_tray (last (history pick4)))) \<and>
   distinct (pendingLetters (tray (pickTile exampleEnv ''t4'' pick4))) \<and>
   map entry_letterId (tray (fire 3 pick4)) = [''gimel'', ''zayin''] \<and>
   distinct (pendingLetters (tray (fire 3 pick4))) \<and>
   pendingLetters (tray (undo pick4)) = [''gimel'', ''zayin'', ''chet''] \<and>
   distinct (pendingLetters (tray (undo pick4)))"
proof -
  note th = tray_pending_symbols_distinct[of exampleLetters pick4 exampleEnv "''t4''" 3]
  have r: "reachable exampleLetters pick4" by (rule reachable_pick4)
  have e: "map entry_letterId (tray pick4) = [''gimel'', ''zayin'', ''chet'', ''chet'']"
    "pendingLetters (tray pick4) = [''gimel'', ''zayin'']"
    by (simp_all add: pick4_state pendingLetters_def)
  have m: "last (history pick4) \<in> set (history pick4)"
    "pendingLetters (snap_tray (last (history pick4))) = [''gimel'', ''zayin'', ''chet'']"
    by (simp_all add: pick4_state(10) pick3_state pendingLetters_def)
  have f: "map entry_letterId (tray (fire 3 pick4)) = [''gimel'', ''zayin'']"
    by (simp add: fire_def runTimer_def pick4_state)
  have u: "pendingLetters (tray (undo pick4)) = [''gimel'', ''zayin'', ''chet'']"
    unfolding undo_snoc[OF pick4_state(10)] by (simp add: pick3_state pendingLetters_def)
  from th r have d: "distinct (pendingLetters (tray pick4))"
    "\<forall>s \<in> set (history pick4). distinct (pendingLetters (snap_tray s))" by blast+
  with m have d2: "distinct (pendingLetters (snap_tray (last (history pick4))))" by blast
  from th d have d3: "distinct (pendingLetters (tray (pickTile exampleEnv ''t4'' pick4)))"
    "distinct (pendingLetters (tray (fire 3 pick4)))"
    "distinct (pendingLetters (tray (undo pick4)))" by blast+
  from r e m f u d(1) d2 d3 show ?thesis by blast
qed

end
